theory Spec2Isabelle
  imports Complex_Main "HOL-Library.Sublist"
begin

section \<open>Python values used by \<^verbatim>\<open>time_backup.py\<close>\<close>

text \<open>
  Exceptions are values: a function that can raise returns \<open>py_error + 'a\<close>, with
  \<open>Inl\<close> for the exception that leaves the function.

  A Python \<^verbatim>\<open>str\<close> is modelled as a \<open>string\<close>; a \<open>char\<close> stands for the code point
  of the same number, so the model covers the strings over U+0000 .. U+00FF. Python
  integers are unbounded and are modelled as \<open>int\<close>.
\<close>

datatype py_error =
    ValueError
  | ZeroDivisionError
  | NotImplementedError
  | PermissionError
  | RuntimeError
  | OSError

text \<open>
  \<^verbatim>\<open>str.isdecimal\<close> and \<^verbatim>\<open>str.isdigit\<close> on one character. In the range of the model the
  decimal characters are \<^verbatim>\<open>0\<close> .. \<^verbatim>\<open>9\<close>; \<^verbatim>\<open>isdigit\<close> accepts in addition the
  superscript digits U+00B2, U+00B3 and U+00B9, which have the Unicode property
  \<^verbatim>\<open>Numeric_Type=Digit\<close> without being decimal.
\<close>

definition isdecimal :: "char \<Rightarrow> bool" where
  "isdecimal c = (c \<in> set ''0123456789'')"

definition superscript_digits :: "string" where
  "superscript_digits = [CHR 0xB2, CHR 0xB3, CHR 0xB9]"

definition isdigit :: "char \<Rightarrow> bool" where
  "isdigit c = (isdecimal c \<or> c \<in> set superscript_digits)"

definition digit_value :: "char \<Rightarrow> int" where
  "digit_value c = int (of_char c) - 48"

text \<open>The number a run of decimal digits writes.\<close>

definition decimal :: "string \<Rightarrow> int" where
  "decimal run = foldl (\<lambda>n c. 10 * n + digit_value c) 0 run"

text \<open>
  \<^verbatim>\<open>int(digit)\<close> for a string made of \<^verbatim>\<open>isdigit\<close> characters, as \<^verbatim>\<open>parse_interval\<close>
  builds it: the decimal value when every character is decimal and there are at most
  \<^verbatim>\<open>sys.get_int_max_str_digits()\<close> of them, \<^verbatim>\<open>ValueError\<close> otherwise (and on the empty
  string). The limit is the interpreter's default, 4300; leading zeros count.
\<close>

definition int_max_str_digits :: nat where
  "int_max_str_digits = 4300"

definition int_of_digits :: "string \<Rightarrow> py_error + int" where
  "int_of_digits digit =
     (if digit \<noteq> [] \<and> list_all isdecimal digit \<and> length digit \<le> int_max_str_digits
      then Inr (decimal digit)
      else Inl ValueError)"

text \<open>\<^verbatim>\<open>str.replace(old, new)\<close> where both arguments are one character long.\<close>

definition replace_chr :: "string \<Rightarrow> char \<Rightarrow> char \<Rightarrow> string" where
  "replace_chr s old new = map (\<lambda>x. if x = old then new else x) s"

section \<open>\<^verbatim>\<open>format_file_name\<close>\<close>

text \<open>
  \<^verbatim>\<open>
  def format_file_name(file_name: str) -> str:
      for c in '/\\:*?"|<>':
          file_name = file_name.replace(c, "_")
      return file_name
  \<close>
  The literal holds nine characters: slash, backslash (U+005C), colon, star, question
  mark, double quote (U+0022), bar, less-than and greater-than.
\<close>

definition hostile_chars :: "string" where
  "hostile_chars =
     [CHR ''/'', CHR 0x5C, CHR '':'', CHR ''*'', CHR ''?'', CHR 0x22, CHR ''|'', CHR ''<'', CHR ''>'']"

definition format_file_name :: "string \<Rightarrow> string" where
  "format_file_name file_name =
     foldl (\<lambda>name c. replace_chr name c (CHR ''_'')) file_name hostile_chars"

section \<open>\<^verbatim>\<open>parse_interval\<close>\<close>

text \<open>
  \<^verbatim>\<open>
  def parse_interval(str_interval: str) -> int:
      digit, result = "", 0
      time_map = {"s": 1, "m": 60, "h": 3600, "d": 3600 * 24}

      def add(s: str = "") -> tuple[int, str]:
          return result + int(digit or 1) * time_map.get(s, 1), ""

      for s in str_interval + " ":
          if s.isdigit():
              digit += s
          elif s in time_map:
              result, digit = add(s)

      if digit:
          result, _ = add()

      return result
  \<close>
\<close>

definition time_map :: "char \<rightharpoonup> int" where
  "time_map = [CHR ''s'' \<mapsto> 1, CHR ''m'' \<mapsto> 60, CHR ''h'' \<mapsto> 3600, CHR ''d'' \<mapsto> 3600 * 24]"

text \<open>
  The closure \<^verbatim>\<open>add\<close> reads \<^verbatim>\<open>digit\<close> and \<^verbatim>\<open>result\<close> of the enclosing call; here they
  are arguments. Its own argument is \<open>Some c\<close> for a unit character and \<open>None\<close> for the
  default \<^verbatim>\<open>""\<close>, which is no key of \<^verbatim>\<open>time_map\<close>.
\<close>

definition add :: "string \<Rightarrow> int \<Rightarrow> char option \<Rightarrow> py_error + (int \<times> string)" where
  "add digit result s =
     (case (if digit = [] then Inr 1 else int_of_digits digit) of
        Inl e \<Rightarrow> Inl e
      | Inr n \<Rightarrow>
          Inr (result + n * (case s of
                               None \<Rightarrow> 1
                             | Some c \<Rightarrow> (case time_map c of None \<Rightarrow> 1 | Some v \<Rightarrow> v)),
               []))"

fun interval_loop :: "string \<Rightarrow> string \<Rightarrow> int \<Rightarrow> py_error + (int \<times> string)" where
  "interval_loop [] digit result = Inr (result, digit)"
| "interval_loop (s # rest) digit result =
     (if isdigit s then interval_loop rest (digit @ [s]) result
      else if time_map s \<noteq> None then
        (case add digit result (Some s) of
           Inl e \<Rightarrow> Inl e
         | Inr (result', digit') \<Rightarrow> interval_loop rest digit' result')
      else interval_loop rest digit result)"

definition parse_interval :: "string \<Rightarrow> py_error + int" where
  "parse_interval str_interval =
     (case interval_loop (str_interval @ '' '') [] 0 of
        Inl e \<Rightarrow> Inl e
      | Inr (result, digit) \<Rightarrow>
          if digit \<noteq> [] then
            (case add digit result None of
               Inl e \<Rightarrow> Inl e
             | Inr (result', _) \<Rightarrow> Inr result')
          else Inr result)"

subsection \<open>The interval grammar as the specification words it\<close>

text \<open>
  The specification: skip every character that is neither a decimal digit nor a unit;
  what is left is a sequence of terms, each a possibly empty digit run and a unit
  character, worth the run's number (1 for an empty run) times the unit's seconds; a
  digit run left at the end of the input counts as seconds; the values are summed.
  This definition follows those words, not the code, and is compared with
  \<open>parse_interval\<close> below.
\<close>

definition unit_char :: "char \<Rightarrow> bool" where
  "unit_char c = (c \<in> set ''smhd'')"

definition unit_seconds :: "char \<Rightarrow> int" where
  "unit_seconds c =
     (if c = CHR ''s'' then 1 else if c = CHR ''m'' then 60
      else if c = CHR ''h'' then 3600 else 86400)"

function spec_terms :: "string \<Rightarrow> int" where
  "spec_terms s =
     (let run = takeWhile isdecimal s in
      case dropWhile isdecimal s of
        [] \<Rightarrow> (if run = [] then 0 else decimal run)
      | u # rest \<Rightarrow> (if run = [] then 1 else decimal run) * unit_seconds u + spec_terms rest)"
  by pat_completeness auto
termination
proof (relation "measure length")
  show "wf (measure length)" by simp
next
  fix s :: string and run u rest
  assume "dropWhile isdecimal s = u # rest"
  then have "length (u # rest) \<le> length s"
    using length_dropWhile_le [of isdecimal s] by simp
  then show "(rest, s) \<in> measure length" by simp
qed

definition spec_interval :: "string \<Rightarrow> int" where
  "spec_interval s = spec_terms (filter (\<lambda>c. isdecimal c \<or> unit_char c) s)"

text \<open>
  A complete term of that grammar: an optional run of decimal digits followed by one of
  the unit characters \<^verbatim>\<open>s\<close>, \<^verbatim>\<open>m\<close>, \<^verbatim>\<open>h\<close>, \<^verbatim>\<open>d\<close>; and the seconds it stands for, by the
  table of the specification (s = 1, m = 60, h = 3600, d = 86400).
\<close>

definition complete_term :: "string \<Rightarrow> bool" where
  "complete_term a = (a \<noteq> [] \<and> unit_char (last a) \<and> list_all isdecimal (butlast a))"

definition term_seconds :: "string \<Rightarrow> int" where
  "term_seconds a =
     (if butlast a = [] then 1 else decimal (butlast a)) * unit_seconds (last a)"

text \<open>A complete term whose digit run is one digit longer than \<^verbatim>\<open>int\<close> converts.\<close>

definition long_term :: string where
  "long_term = replicate 4301 (CHR ''1'') @ ''s''"

text \<open>
  A sequence of complete terms, read from left to right: a decimal digit opens or
  continues a term, a unit character closes one (it is a term by itself when no digit
  is open), no other character occurs, and no term is open at the end.
\<close>

fun terms_from :: "bool \<Rightarrow> string \<Rightarrow> bool" where
  "terms_from pending [] = (\<not> pending)"
| "terms_from pending (c # cs) =
     (if unit_char c then terms_from False cs
      else if isdecimal c then terms_from True cs
      else False)"

definition term_sequence :: "string \<Rightarrow> bool" where
  "term_sequence s = terms_from False s"

section \<open>The host: file system, server and clock\<close>

text \<open>
  A \<^verbatim>\<open>pathlib.Path\<close> is modelled by its string. \<open>host\<close> collects what one run observes
  of its surroundings, each a function of the arguments the code passes:
  \<^item> \<open>Path s\<close>, the path that \<^verbatim>\<open>Path(s)\<close> builds from a string;
  \<^item> \<open>is_file p\<close> and \<open>path_exists p\<close>, the answers of \<^verbatim>\<open>p.is_file()\<close> and \<^verbatim>\<open>p.exists()\<close>;
  \<^item> \<open>rglob base pattern\<close>, the paths \<^verbatim>\<open>base.rglob(pattern)\<close> yields, in the order it
    yields them, or the exception it raises (pathlib rejects an empty and an absolute
    pattern);
  \<^item> \<open>with_name p name\<close>, the result of \<^verbatim>\<open>p.with_name(name)\<close>, which raises
    \<^verbatim>\<open>ValueError\<close> on a name it does not accept;
  \<^item> \<open>mkdir_error p\<close>, \<open>open_error p\<close> and \<open>close_error p\<close>, the exception that creating
    the directory \<open>p\<close>, opening the archive at \<open>p\<close> for writing and closing it raises, if
    any;
  \<^item> \<open>add_error file\<close>, the exception that adding \<open>file\<close> to the open archive raises,
    if any;
  \<^item> \<open>strftime\<close>, the text of the local time when the archive is named;
  \<^item> \<open>ack\<close>, whether the server prints one of the saved-world keywords while the run
    waits for it (within the timeout, when there is one).

  The file system does not change while a function runs.
\<close>

type_synonym path = string

record host =
  Path :: "string \<Rightarrow> path"
  is_file :: "path \<Rightarrow> bool"
  path_exists :: "path \<Rightarrow> bool"
  rglob :: "path \<Rightarrow> string \<Rightarrow> py_error + path list"
  with_name :: "path \<Rightarrow> string \<Rightarrow> py_error + path"
  mkdir_error :: "path \<Rightarrow> py_error option"
  open_error :: "path \<Rightarrow> py_error option"
  close_error :: "path \<Rightarrow> py_error option"
  add_error :: "path \<Rightarrow> py_error option"
  strftime :: string
  ack :: bool

section \<open>\<^verbatim>\<open>parse_paths\<close>\<close>

text \<open>
  \<^verbatim>\<open>
  def parse_paths(base_path: str | Path, rules: list[str]) -> list[Path]:
      base_path = Path(base_path)
      paths: list[Path] = []

      for rule in rules:
          pass_path = rule.startswith("!")
          if (path := Path(rule[1:])).is_file():
              if pass_path:
                  if path in paths:
                      paths.remove(path)
                  continue
              paths.append(path)
              continue

          for path in base_path.rglob(rule[1:] if pass_path else rule):
              if pass_path:
                  if path in paths:
                      paths.remove(path)
                  continue
              paths.append(path)

      return paths
  \<close>
  Both branches do the same with a path they reach; \<open>visit\<close> is that body.
  \<^verbatim>\<open>list.remove\<close> deletes the first occurrence, as \<open>remove1\<close> does. The single-file
  test reads \<^verbatim>\<open>rule[1:]\<close> for every rule, also for one that does not start with
  \<^verbatim>\<open>!\<close>.
\<close>

definition startswith_bang :: "string \<Rightarrow> bool" where
  "startswith_bang rule = (take 1 rule = ''!'')"

definition visit :: "bool \<Rightarrow> path list \<Rightarrow> path \<Rightarrow> path list" where
  "visit pass_path paths path =
     (if pass_path then (if path \<in> set paths then remove1 path paths else paths)
      else paths @ [path])"

fun rules_loop :: "host \<Rightarrow> path \<Rightarrow> string list \<Rightarrow> path list \<Rightarrow> py_error + path list" where
  "rules_loop h base_path [] paths = Inr paths"
| "rules_loop h base_path (rule # rules) paths =
     (let pass_path = startswith_bang rule;
          path = Path h (drop 1 rule)
      in if is_file h path then rules_loop h base_path rules (visit pass_path paths path)
         else (case rglob h base_path (if pass_path then drop 1 rule else rule) of
                 Inl e \<Rightarrow> Inl e
               | Inr found \<Rightarrow> rules_loop h base_path rules (foldl (visit pass_path) paths found)))"

definition parse_paths :: "host \<Rightarrow> string \<Rightarrow> string list \<Rightarrow> py_error + path list" where
  "parse_paths h base_path rules = rules_loop h (Path h base_path) rules []"

text \<open>
  The paths one rule reaches, and the paths the include rules of a list reach, in
  rule order and with repetitions.
\<close>

definition reached :: "host \<Rightarrow> path \<Rightarrow> string \<Rightarrow> path list" where
  "reached h base_path rule =
     (if is_file h (Path h (drop 1 rule)) then [Path h (drop 1 rule)]
      else (case rglob h base_path (if startswith_bang rule then drop 1 rule else rule) of
              Inl e \<Rightarrow> []
            | Inr found \<Rightarrow> found))"

definition included :: "host \<Rightarrow> path \<Rightarrow> string list \<Rightarrow> path list" where
  "included h base_path rules =
     concat (map (reached h base_path) (filter (\<lambda>rule. \<not> startswith_bang rule) rules))"

section \<open>Messages and server commands\<close>

text \<open>
  \<open>message\<close> names the texts the plugin sends (the source writes them in Chinese):
  \<open>AlreadyRunning\<close> "a backup is running, do not repeat the command", \<open>BackingUp\<close>
  "backing up, please wait", \<open>SaveTimeout\<close> "backup timed out, backup suspended",
  \<open>NoPermission file\<close> "no permission to back up file", \<open>Progress all now\<close> the progress
  bar, \<open>BackupDone\<close> and \<open>BackupSize\<close> the two lines of the completion report, and
  \<open>BackupFailed\<close> "an error occurred during the backup, backup suspended", and
  \<open>NextBackup\<close> the time of the next backup, which the scheduler's \<^verbatim>\<open>done_callback\<close> sends.
  \<^verbatim>\<open>Timer.send\<close> sends one text per line of its message.
\<close>

type_synonym command_source = string

datatype message =
    AlreadyRunning
  | BackingUp
  | SaveTimeout
  | NoPermission path
  | Progress int int
  | BackupDone
  | BackupSize
  | BackupFailed
  | NextBackup

datatype event =
    Reply command_source message
  | Broadcast message
  | Execute string
  | LogException py_error

section \<open>The progress callback \<^verbatim>\<open>send_now\<close>\<close>

text \<open>
  \<^verbatim>\<open>
  def send_now(all: int, now: int):
      if now % int(all / 8) == 0 or all == now:
          step_int = int((step := now * 100 / all) / (100 / 10))
          self.send(f"[...] {step:04.1f}% [{all}/{(all-now):03d}]", broadcast=True)
  \<close>
  \<^verbatim>\<open>all / 8\<close> is a float and \<^verbatim>\<open>int\<close> truncates it toward zero; for a count below
  \<open>2 ^ 53\<close> the float is exact, and the model takes the truncated quotient. The
  remainder is Python's, with the sign of the divisor, as \<open>mod\<close> on \<open>int\<close>; a zero
  divisor raises. The first operand of \<^verbatim>\<open>or\<close> is evaluated first.
\<close>

definition int_div8 :: "int \<Rightarrow> int" where
  "int_div8 n = (if 0 \<le> n then n div 8 else - ((- n) div 8))"

definition py_mod :: "int \<Rightarrow> int \<Rightarrow> py_error + int" where
  "py_mod a b = (if b = 0 then Inl ZeroDivisionError else Inr (a mod b))"

definition send_now :: "int \<Rightarrow> int \<Rightarrow> py_error + event list" where
  "send_now all now =
     (case py_mod now (int_div8 all) of
        Inl e \<Rightarrow> Inl e
      | Inr r \<Rightarrow> if r = 0 \<or> all = now then Inr [Broadcast (Progress all now)] else Inr [])"

section \<open>\<^verbatim>\<open>Timer.package_zip\<close>\<close>

record config =
  enabled :: bool
  backup_path :: string
  files_rules :: "string list"
  save_game_timeout :: real
  zip_type :: string

datatype archive_format = TarGz | Tar | Zip

text \<open>
  The open archive: the path it is written to; its container; the paths for which
  \<^verbatim>\<open>add\<close> or \<^verbatim>\<open>write\<close> has been called so far, and those of them for which the call
  returned; whether \<^verbatim>\<open>close\<close> has returned; the calls of the callback so far (each with
  its two arguments); and what has been sent and logged. What the archive holds follows
  from the calls that returned, by the container: \<^verbatim>\<open>ZipFile.write\<close> takes the one path,
  \<^verbatim>\<open>TarFile.add\<close> takes a directory with everything below it.
\<close>

record build =
  target :: path
  container :: archive_format
  attempted :: "path list"
  added :: "path list"
  is_closed :: bool
  calls :: "(int \<times> int) list"
  events :: "event list"

text \<open>\<^verbatim>\<open>str(n)\<close> for a natural number.\<close>

function str_nat :: "nat \<Rightarrow> string" where
  "str_nat n =
     (if n < 10 then [char_of (48 + n)]
      else str_nat (n div 10) @ [char_of (48 + n mod 10)])"
  by pat_completeness auto
termination
  by (relation "measure id") auto

text \<open>
  \<^verbatim>\<open>
  path, index = zip_path / f"{base_filename}.{zip_type}", 1
  while path.exists():
      index += 1
      path.with_name(f"{base_filename}.{index}.{zip_type}")
  \<close>
  The value of \<^verbatim>\<open>with_name\<close> is dropped: \<^verbatim>\<open>path\<close> is the same in every round. The loop may
  run forever, so its model returns \<open>None\<close> when it does not return.
\<close>

partial_function (option) name_loop ::
    "host \<Rightarrow> string \<Rightarrow> string \<Rightarrow> path \<Rightarrow> nat \<Rightarrow> (py_error + path \<times> nat) option" where
  "name_loop h base_filename ext path index =
     (if path_exists h path then
        (case with_name h path (base_filename @ ''.'' @ str_nat (index + 1) @ ''.'' @ ext) of
           Inl e \<Rightarrow> Some (Inl e)
         | Inr renamed \<Rightarrow> name_loop h base_filename ext path (index + 1))
      else Some (Inr (path, index)))"

definition container_of :: "path \<Rightarrow> archive_format" where
  "container_of path =
     (if suffix ''.tar.gz'' path then TarGz
      else if suffix ''.tar'' path then Tar
      else Zip)"

text \<open>
  \<^verbatim>\<open>
  for index, file in enumerate(files):
      try:
          if isinstance(f, tarfile.TarFile):
              f.add(file)
          else:
              f.write(file)
      except PermissionError:
          self.send(f"... {file} ...", broadcast=True)
      except Exception as e:
          self.server.logger.exception(e)

      if callback:
          callback(all_files, index + 1)
  \<close>
  \<open>add_file\<close> is the \<^verbatim>\<open>try\<close> statement: a path whose call raises is reported or logged,
  and the loop goes on. The call of the callback stands outside the \<^verbatim>\<open>try\<close>: what it raises
  leaves the loop. The loop returns the exception that left it, if one did, and the
  archive as it is then.
\<close>

definition add_file :: "(path \<Rightarrow> py_error option) \<Rightarrow> path \<Rightarrow> build \<Rightarrow> build" where
  "add_file adding file f =
     (let f0 = f\<lparr>attempted := attempted f @ [file]\<rparr>
      in case adding file of
           None \<Rightarrow> f0\<lparr>added := added f0 @ [file]\<rparr>
         | Some e \<Rightarrow>
             if e = PermissionError
             then f0\<lparr>events := events f0 @ [Broadcast (NoPermission file)]\<rparr>
             else f0\<lparr>events := events f0 @ [LogException e]\<rparr>)"

fun files_loop ::
    "(path \<Rightarrow> py_error option) \<Rightarrow> (int \<Rightarrow> int \<Rightarrow> py_error + event list) option \<Rightarrow>
     int \<Rightarrow> int \<Rightarrow> path list \<Rightarrow> build \<Rightarrow> py_error option \<times> build" where
  "files_loop adding callback all_files index [] f = (None, f)"
| "files_loop adding callback all_files index (file # files) f =
     (let f1 = add_file adding file f
      in case callback of
           None \<Rightarrow> files_loop adding callback all_files (index + 1) files f1
         | Some call \<Rightarrow>
             (let f2 = f1\<lparr>calls := calls f1 @ [(all_files, index + 1)]\<rparr>
              in case call all_files (index + 1) of
                   Inl e \<Rightarrow> (Some e, f2)
                 | Inr sent \<Rightarrow>
                     files_loop adding callback all_files (index + 1) files
                       (f2\<lparr>events := events f2 @ sent\<rparr>)))"

text \<open>
  \<^verbatim>\<open>
  def package_zip(self, filename, callback=None) -> Path:
      rules, zip_path, zip_type, base_filename = (
          self.config.files_rules, Path(self.config.backup_path),
          self.config.zip_type, format_file_name(filename))
      zip_path.mkdir(parents=True, exist_ok=True)
      files = [path for path in parse_paths(BASE_PATH, rules)
               if not str(path).endswith("session.lock")]
      all_files = len(files)
      ... the naming loop ...
      ... open f at path, by the suffix of path ...
      ... the loop over files ...
      f.close()
      return path
  \<close>
  \<^verbatim>\<open>files_rules\<close> is a list of rules, as \<^verbatim>\<open>Configure\<close> declares it (the code wraps a
  single string into a list). \<^verbatim>\<open>BASE_PATH\<close> is \<^verbatim>\<open>Path("")\<close>. \<open>selected_files\<close> is the list
  \<^verbatim>\<open>files\<close>, and \<open>archive_path\<close> the first value of \<^verbatim>\<open>path\<close>: \<^verbatim>\<open>zip_path / name\<close> is the
  path of the two texts joined by a slash, since the sanitized name never starts with
  one. Creating the directory, opening the archive and closing it can raise, and what
  they raise leaves \<^verbatim>\<open>package_zip\<close>. The result is \<open>None\<close> when the call does not return;
  else the path returned or the exception raised, with the archive if one was opened.
\<close>

definition selected_files :: "host \<Rightarrow> config \<Rightarrow> py_error + path list" where
  "selected_files h cfg =
     (case parse_paths h [] (files_rules cfg) of
        Inl e \<Rightarrow> Inl e
      | Inr selected \<Rightarrow> Inr (filter (\<lambda>path. \<not> suffix ''session.lock'' path) selected))"

definition archive_path :: "host \<Rightarrow> config \<Rightarrow> string \<Rightarrow> path" where
  "archive_path h cfg filename =
     Path h (backup_path cfg @ ''/'' @ format_file_name filename @ ''.'' @ zip_type cfg)"

definition package_zip ::
    "host \<Rightarrow> config \<Rightarrow> string \<Rightarrow> (int \<Rightarrow> int \<Rightarrow> py_error + event list) option \<Rightarrow>
     ((py_error + path) \<times> build option) option" where
  "package_zip h cfg filename callback =
     (case mkdir_error h (Path h (backup_path cfg)) of
        Some e \<Rightarrow> Some (Inl e, None)
      | None \<Rightarrow>
     (case selected_files h cfg of
        Inl e \<Rightarrow> Some (Inl e, None)
      | Inr files \<Rightarrow>
          (let all_files = int (length files)
           in case name_loop h (format_file_name filename) (zip_type cfg)
                     (archive_path h cfg filename) 1 of
                None \<Rightarrow> None
              | Some (Inl e) \<Rightarrow> Some (Inl e, None)
              | Some (Inr (path, index)) \<Rightarrow>
                  (case open_error h path of
                     Some e \<Rightarrow> Some (Inl e, None)
                   | None \<Rightarrow>
                  (case files_loop (add_error h) callback all_files 0 files
                          \<lparr>target = path, container = container_of path, attempted = [],
                           added = [], is_closed = False, calls = [], events = []\<rparr> of
                     (Some e, f) \<Rightarrow> Some (Inl e, Some f)
                   | (None, f) \<Rightarrow>
                       (case close_error h path of
                          Some e \<Rightarrow> Some (Inl e, Some f)
                        | None \<Rightarrow> Some (Inr path, Some (f\<lparr>is_closed := True\<rparr>))))))))"

section \<open>\<^verbatim>\<open>Timer.create_backup\<close>\<close>

text \<open>
  The three fields of the timer a run reads and writes: the flag \<^verbatim>\<open>_backup_ing\<close>, the
  event \<^verbatim>\<open>_saved_game_event\<close> (set or not) and the lock \<^verbatim>\<open>creating_backup\<close> (held or not).
\<close>

record timer =
  backup_ing :: bool
  saved_game_event :: bool
  creating_backup :: bool

datatype admission = Rejected | Disabled | Admitted

datatype outcome =
    Refused
  | Skipped
  | TimedOut
  | Completed path
  | Failed py_error
  | Escaped py_error

text \<open>
  \<^verbatim>\<open>
  if self._backup_ing and source:
      self.send("...", source=source)
      return
  if not self.config.enabled:
      return
  start_time = time.time()
  self.creating_backup.acquire(blocking=False)
  self._backup_ing = True
  self.send("...", broadcast=True)
  self.server.execute("save-off")
  self.server.execute("save-all flush")
  self._saved_game_event.clear()
  \<close>
  \<^verbatim>\<open>acquire(blocking=False)\<close> takes the lock when it is free and returns \<^verbatim>\<open>False\<close> when it
  is held; the code drops the answer, and the lock is held afterwards either way.
  \<open>begin_backup\<close> is the run up to its wait.
\<close>

definition begin_backup ::
    "config \<Rightarrow> timer \<Rightarrow> command_source option \<Rightarrow> admission \<times> timer \<times> event list" where
  "begin_backup cfg t source =
     (case (if backup_ing t then source else None) of
        Some src \<Rightarrow> (Rejected, t, [Reply src AlreadyRunning])
      | None \<Rightarrow>
          if \<not> enabled cfg then (Disabled, t, [])
          else (Admitted,
                t\<lparr>creating_backup := True, backup_ing := True, saved_game_event := False\<rparr>,
                [Broadcast BackingUp, Execute ''save-off'', Execute ''save-all flush'']))"

text \<open>
  \<^verbatim>\<open>
  finally:
      self._backup_ing = False
      self.creating_backup.release()
      self.server.execute("save-on")
      if done_callback:
          done_callback()
  \<close>
  \<^verbatim>\<open>release\<close> of a lock that is not held raises \<^verbatim>\<open>RuntimeError\<close>, which leaves the
  \<^verbatim>\<open>finally\<close> block at once. \<open>done_callback\<close> is given by what it sends.
\<close>

definition finally_block ::
    "timer \<Rightarrow> event list option \<Rightarrow> py_error option \<times> timer \<times> event list" where
  "finally_block t done_callback =
     (let t1 = t\<lparr>backup_ing := False\<rparr>
      in if \<not> creating_backup t1 then (Some RuntimeError, t1, [])
         else (None, t1\<lparr>creating_backup := False\<rparr>,
               Execute ''save-on'' # (case done_callback of None \<Rightarrow> [] | Some sent \<Rightarrow> sent)))"

text \<open>
  \<^verbatim>\<open>
  timeout = self.config.save_game_timeout
  if not self._saved_game_event.wait(None if timeout < 0 else timeout):
      self.send("...", broadcast=True)
      self._backup_ing = False
      return
  try:
      filename = time.strftime("%Y-%m-%d_%H-%M-%S", time.localtime())
      if comment := ctx.get("cmt"):
          filename += f"_{comment}"
      ...
      path = self.package_zip(filename, send_now)
      self.send(f"...\n...", broadcast=True)
  except Exception as e:
      self.server.logger.exception(e)
      self.send("...", broadcast=True)
      self._backup_ing = False
  finally:
      ...
  \<close>
  The decorator \<^verbatim>\<open>new_thread\<close> runs the body on a thread of its own; the model is the
  body. A wait without a timeout returns only when the event is set: with no
  acknowledgement the run never ends, and the model returns \<open>None\<close>, as it does when
  \<open>package_zip\<close> does not return. Otherwise the result is how the run ended, the timer it
  leaves and what it sent, executed and logged, in order.
\<close>

definition create_backup ::
    "host \<Rightarrow> config \<Rightarrow> timer \<Rightarrow> command_source option \<Rightarrow> string option \<Rightarrow>
     event list option \<Rightarrow> (outcome \<times> timer \<times> event list) option" where
  "create_backup h cfg t source cmt done_callback =
     (case begin_backup cfg t source of
        (Rejected, t0, out0) \<Rightarrow> Some (Refused, t0, out0)
      | (Disabled, t0, out0) \<Rightarrow> Some (Skipped, t0, out0)
      | (Admitted, t0, out0) \<Rightarrow>
          if \<not> ack h then
            (if save_game_timeout cfg < 0 then None
             else Some (TimedOut, t0\<lparr>backup_ing := False\<rparr>, out0 @ [Broadcast SaveTimeout]))
          else
            (let t1 = t0\<lparr>saved_game_event := True\<rparr>;
                 filename = strftime h @ (case cmt of
                                            None \<Rightarrow> []
                                          | Some comment \<Rightarrow>
                                              if comment = [] then [] else ''_'' @ comment)
             in case package_zip h cfg filename (Some send_now) of
                  None \<Rightarrow> None
                | Some (packed, f) \<Rightarrow>
                    (let sent = (case f of None \<Rightarrow> [] | Some b \<Rightarrow> events b);
                         (result, t2, out2) =
                           (case packed of
                              Inr path \<Rightarrow>
                                (Completed path, t1,
                                 sent @ [Broadcast BackupDone, Broadcast BackupSize])
                            | Inl e \<Rightarrow>
                                (Failed e, t1\<lparr>backup_ing := False\<rparr>,
                                 sent @ [LogException e, Broadcast BackupFailed]))
                     in case finally_block t2 done_callback of
                          (Some e, t3, out3) \<Rightarrow> Some (Escaped e, t3, out0 @ out2 @ out3)
                        | (None, t3, out3) \<Rightarrow> Some (result, t3, out0 @ out2 @ out3))))"

section \<open>Counting the occurrences of one path\<close>

text \<open>
  How often a path stands in the list after the rules have run, from how often it
  stood there before: an include rule adds each time it reaches the path, an exclude
  rule takes away one occurrence each time it reaches the path, as long as one is left.
\<close>

fun tally :: "host \<Rightarrow> path \<Rightarrow> path \<Rightarrow> string list \<Rightarrow> nat \<Rightarrow> nat" where
  "tally h base_path p [] n = n"
| "tally h base_path p (rule # rules) n =
     tally h base_path p rules
       (if startswith_bang rule then n - count_list (reached h base_path rule) p
        else n + count_list (reached h base_path rule) p)"

section \<open>An example host\<close>

text \<open>
  A server directory with \<^verbatim>\<open>server/server.jar\<close> and \<^verbatim>\<open>server/world/level.dat\<close>, seen from
  the working directory; \<^verbatim>\<open>Path\<close> leaves these strings as they are, and a glob
  yields directories as well as files. The backup directory can be created, the
  archive opened and closed, no file is refused to it, and the server acknowledges the
  save.
\<close>

definition small_server :: host where
  "small_server =
     \<lparr>Path = (\<lambda>s. s),
      is_file = (\<lambda>p. p \<in> set [''server/server.jar'', ''server/world/level.dat'']),
      path_exists = (\<lambda>p. p \<in> set [''server'', ''server/server.jar'', ''server/world'',
                                 ''server/world/level.dat'']),
      rglob = (\<lambda>base pattern.
                 if pattern = [] then Inl ValueError
                 else if pattern = ''server/**/*''
                 then Inr [''server/server.jar'', ''server/world'', ''server/world/level.dat'']
                 else if pattern = ''server/world/*'' then Inr [''server/world/level.dat'']
                 else if pattern = ''server/world'' then Inr [''server/world'']
                 else Inr []),
      with_name = (\<lambda>p name. Inr (''permanent_backup/'' @ name)),
      mkdir_error = (\<lambda>p. None),
      open_error = (\<lambda>p. None),
      close_error = (\<lambda>p. None),
      add_error = (\<lambda>file. None),
      strftime = ''2024-01-01_00-00-00'',
      ack = True\<rparr>"

text \<open>
  The configuration a new installation starts with (the defaults of \<^verbatim>\<open>Configure\<close>), and
  the example host with pathlib's reading of a leading \<^verbatim>\<open>./\<close>.
\<close>

definition default_config :: config where
  "default_config =
     \<lparr>enabled = True,
      backup_path = ''./permanent_backup'',
      files_rules = [''!__pycache__/**'', ''!test'', ''server/**/*''],
      save_game_timeout = - 1,
      zip_type = ''zip''\<rparr>"

definition example_server :: host where
  "example_server = small_server\<lparr>Path := (\<lambda>s. if take 2 s = ''./'' then drop 2 s else s)\<rparr>"

text \<open>The same host on a day when the archive of that second is already there.\<close>

definition taken_server :: host where
  "taken_server =
     example_server\<lparr>path_exists := (\<lambda>p. p = ''permanent_backup/2024-01-01_00-00-00.zip'')\<rparr>"

text \<open>A timer at rest, and a timer in the middle of a run.\<close>

definition idle :: timer where
  "idle = \<lparr>backup_ing = False, saved_game_event = False, creating_backup = False\<rparr>"

definition busy :: timer where
  "busy = \<lparr>backup_ing = True, saved_game_event = False, creating_backup = True\<rparr>"

section \<open>Properties of \<^verbatim>\<open>format_file_name\<close>\<close>

lemma format_file_name_map:
  "format_file_name s = map (\<lambda>c. if c \<in> set hostile_chars then CHR ''_'' else c) s"
  by (simp add: format_file_name_def hostile_chars_def replace_chr_def)

lemma hostile_chars_set:
  "set hostile_chars
   = {CHR ''/'', CHR 0x5C, CHR '':'', CHR ''*'', CHR ''?'', CHR 0x22, CHR ''|'', CHR ''<'', CHR ''>''}"
  by (simp add: hostile_chars_def)

text \<open>
  C10. The sanitizer is idempotent; its output holds none of the nine characters slash,
  backslash (U+005C), colon, star, question mark, double quote (U+0022), bar, less-than
  and greater-than; and it is the character-wise map that puts an underscore in the
  place of each of these nine and keeps every other character.
\<close>

theorem format_file_name_idempotent_clean:
  "format_file_name (format_file_name s) = format_file_name s
   \<and> set (format_file_name s)
       \<inter> {CHR ''/'', CHR 0x5C, CHR '':'', CHR ''*'', CHR ''?'', CHR 0x22, CHR ''|'', CHR ''<'',
          CHR ''>''} = {}
   \<and> format_file_name s
     = map (\<lambda>c. if c \<in> {CHR ''/'', CHR 0x5C, CHR '':'', CHR ''*'', CHR ''?'', CHR 0x22, CHR ''|'',
                           CHR ''<'', CHR ''>''}
                  then CHR ''_'' else c) s"
proof -
  let ?nine = "{CHR ''/'', CHR 0x5C, CHR '':'', CHR ''*'', CHR ''?'', CHR 0x22, CHR ''|'',
                CHR ''<'', CHR ''>''}"
  have m: "format_file_name s = map (\<lambda>c. if c \<in> ?nine then CHR ''_'' else c) s" for s
    unfolding format_file_name_map hostile_chars_set ..
  have under: "CHR ''_'' \<notin> ?nine" by simp
  have idem: "format_file_name (format_file_name s) = format_file_name s"
    unfolding m using under by (induction s) simp_all
  have clean: "set (format_file_name s) \<inter> ?nine = {}"
    unfolding m using under by (induction s) simp_all
  from idem clean m [of s] show ?thesis by blast
qed

text \<open>The sanitizer on a name that holds each of the nine characters.\<close>

lemma format_file_name_example:
  "format_file_name [CHR ''a'', CHR ''/'', CHR 0x5C, CHR '':'', CHR ''*'', CHR ''?'', CHR 0x22,
                     CHR ''|'', CHR ''<'', CHR ''>'', CHR ''b'', CHR ''_'', CHR ''.'']
   = ''a_________b_.''"
  by (simp add: format_file_name_def hostile_chars_def replace_chr_def)

section \<open>Properties of \<^verbatim>\<open>parse_interval\<close>\<close>

declare spec_terms.simps [simp del]

lemma isdecimal_isdigit: "isdecimal c \<Longrightarrow> isdigit c"
  by (simp add: isdigit_def)

lemma unit_char_time_map: "unit_char c \<longleftrightarrow> time_map c \<noteq> None"
  by (auto simp: unit_char_def time_map_def)

lemma unit_seconds_time_map: "unit_char c \<Longrightarrow> time_map c = Some (unit_seconds c)"
  by (auto simp: unit_char_def time_map_def unit_seconds_def)

lemma unit_not_decimal: "unit_char c \<Longrightarrow> \<not> isdecimal c"
  by (auto simp: unit_char_def isdecimal_def)

lemma unit_not_digit: "unit_char c \<Longrightarrow> \<not> isdigit c"
  by (auto simp: unit_char_def isdigit_def isdecimal_def superscript_digits_def)

lemma blank_skipped: "interval_loop '' '' [] result = Inr (result, [])"
  by (simp add: isdigit_def isdecimal_def superscript_digits_def time_map_def)

subsection \<open>Complete terms\<close>

lemma interval_loop_digits:
  "list_all isdecimal ds \<Longrightarrow>
   interval_loop (ds @ rest) digit result = interval_loop rest (digit @ ds) result"
  by (induction ds arbitrary: digit) (simp_all add: isdecimal_isdigit)

text \<open>The closure \<^verbatim>\<open>add\<close> at a unit character, by the table of the specification.\<close>

lemma add_unit:
  assumes "unit_char u" and "list_all isdecimal digit"
    and "length digit \<le> int_max_str_digits"
  shows "add digit result (Some u)
         = Inr (result + (if digit = [] then 1 else decimal digit) * unit_seconds u, [])"
  using assms by (simp add: add_def int_of_digits_def unit_seconds_time_map)

lemma interval_loop_term:
  assumes "complete_term a" and "length (butlast a) \<le> int_max_str_digits"
  shows "interval_loop (a @ rest) [] result = interval_loop rest [] (result + term_seconds a)"
proof -
  from assms(1) have ne: "a \<noteq> []" and u: "unit_char (last a)"
    and ds: "list_all isdecimal (butlast a)"
    by (simp_all add: complete_term_def)
  from ne have a: "a = butlast a @ [last a]" by simp
  have "interval_loop (a @ rest) [] result
        = interval_loop ((butlast a @ [last a]) @ rest) [] result"
    using a by simp
  also have "\<dots> = interval_loop (last a # rest) (butlast a) result"
    using interval_loop_digits [OF ds, of "last a # rest" "[]" result] by simp
  also have "\<dots> = interval_loop rest [] (result + term_seconds a)"
    using unit_not_digit [OF u] u add_unit [OF u ds assms(2), of result]
    by (simp add: term_seconds_def unit_char_time_map)
  finally show ?thesis .
qed

lemma parse_interval_term:
  assumes "complete_term a" and "length (butlast a) \<le> int_max_str_digits"
  shows "parse_interval a = Inr (term_seconds a)"
proof -
  have "interval_loop (a @ '' '') [] 0 = Inr (term_seconds a, [])"
    using interval_loop_term [OF assms, of "'' ''" 0] blank_skipped [of "term_seconds a"]
    by (simp only: add_0)
  then show ?thesis
    by (simp only: parse_interval_def sum.case prod.case simp_thms if_False)
qed

text \<open>
  C9, as the code has it. For complete terms \<open>a\<close> and \<open>b\<close> (each an optional run of
  decimal digits and one of the unit characters \<^verbatim>\<open>s\<close>, \<^verbatim>\<open>m\<close>, \<^verbatim>\<open>h\<close>, \<^verbatim>\<open>d\<close>) whose digit runs
  are no longer than the 4300 digits that \<^verbatim>\<open>int\<close> converts, the parser returns on \<open>a\<close>
  and on \<open>b\<close> the seconds of the term by the table s = 1, m = 60, h = 3600, d = 86400, and
  on their concatenation the sum of the two.
\<close>

theorem parse_interval_additive:
  assumes "complete_term a" and "complete_term b"
    and "length (butlast a) \<le> int_max_str_digits"
    and "length (butlast b) \<le> int_max_str_digits"
  shows "parse_interval a = Inr (term_seconds a)
         \<and> parse_interval b = Inr (term_seconds b)
         \<and> parse_interval (a @ b) = Inr (term_seconds a + term_seconds b)"
proof -
  have "interval_loop ((a @ b) @ '' '') [] 0
        = interval_loop (b @ '' '') [] (0 + term_seconds a)"
    using interval_loop_term [OF assms(1) assms(3), of "b @ '' ''" 0]
    by (simp only: append_assoc)
  also have "\<dots> = interval_loop '' '' [] (term_seconds a + term_seconds b)"
    using interval_loop_term [OF assms(2) assms(4), of "'' ''" "0 + term_seconds a"]
    by (simp only: add_0)
  also have "\<dots> = Inr (term_seconds a + term_seconds b, [])"
    by (rule blank_skipped)
  finally have "parse_interval (a @ b) = Inr (term_seconds a + term_seconds b)"
    by (simp only: parse_interval_def sum.case prod.case simp_thms if_False)
  with parse_interval_term [OF assms(1) assms(3)] parse_interval_term [OF assms(2) assms(4)]
  show ?thesis by blast
qed

theorem parse_interval_additive_witness:
  "complete_term ''2d'' \<and> complete_term ''3h''
   \<and> length (butlast ''2d'') \<le> int_max_str_digits
   \<and> length (butlast ''3h'') \<le> int_max_str_digits
   \<and> parse_interval ''2d'' = Inr 172800 \<and> parse_interval ''3h'' = Inr 10800
   \<and> parse_interval (''2d'' @ ''3h'') = Inr 183600
   \<and> complete_term ''30m'' \<and> complete_term ''45s''
   \<and> length (butlast ''30m'') \<le> int_max_str_digits
   \<and> length (butlast ''45s'') \<le> int_max_str_digits
   \<and> parse_interval ''30m'' = Inr 1800 \<and> parse_interval ''45s'' = Inr 45
   \<and> parse_interval (''30m'' @ ''45s'') = Inr 1845"
proof -
  have t: "complete_term ''2d''" "complete_term ''3h''" "complete_term ''30m''"
    "complete_term ''45s''"
    by (simp_all add: complete_term_def unit_char_def isdecimal_def)
  have l: "length (butlast ''2d'') \<le> int_max_str_digits"
    "length (butlast ''3h'') \<le> int_max_str_digits"
    "length (butlast ''30m'') \<le> int_max_str_digits"
    "length (butlast ''45s'') \<le> int_max_str_digits"
    by (simp_all add: int_max_str_digits_def)
  have v: "term_seconds ''2d'' = 172800" "term_seconds ''3h'' = 10800"
    "term_seconds ''30m'' = 1800" "term_seconds ''45s'' = 45"
    by (simp_all add: term_seconds_def decimal_def digit_value_def unit_seconds_def)
  note days = parse_interval_additive [OF t(1) t(2) l(1) l(2)]
  note minutes = parse_interval_additive [OF t(3) t(4) l(3) l(4)]
  from days minutes t l show ?thesis
    by (simp only: v) simp
qed

text \<open>
  The claim C9 as it is stated fails: a complete term with a run of 4301 digits is
  refused by \<^verbatim>\<open>int\<close>, so the parser raises on it and on its concatenation with the
  complete term \<^verbatim>\<open>s\<close>, on which alone it returns 1.
\<close>

theorem parse_interval_long_term_raises:
  "complete_term long_term \<and> complete_term ''s''
   \<and> parse_interval long_term = Inl ValueError
   \<and> parse_interval ''s'' = Inr 1
   \<and> parse_interval (long_term @ ''s'') = Inl ValueError"
proof -
  let ?run = "replicate 4301 (CHR ''1'')"
  have ds: "list_all isdecimal ?run"
    by (simp only: list_all_iff set_replicate_conv_if) (simp add: isdecimal_def)
  have long: "int_of_digits ?run = Inl ValueError"
    by (simp only: int_of_digits_def length_replicate int_max_str_digits_def) simp
  have ne: "?run \<noteq> []"
    by simp
  have stop: "interval_loop (?run @ CHR ''s'' # rest) [] 0 = Inl ValueError" for rest
    using interval_loop_digits [OF ds, of "CHR ''s'' # rest" "[]" 0] long ne
    by (simp add: add_def isdigit_def isdecimal_def superscript_digits_def time_map_def)
  have a: "parse_interval long_term = Inl ValueError"
    using stop [of "'' ''"] by (simp add: parse_interval_def long_term_def)
  have ab: "parse_interval (long_term @ ''s'') = Inl ValueError"
    using stop [of "''s ''"] by (simp add: parse_interval_def long_term_def)
  have t: "complete_term long_term"
    using ds by (simp add: complete_term_def long_term_def unit_char_def)
  have s: "complete_term ''s''" "parse_interval ''s'' = Inr 1"
    by (simp_all add: complete_term_def unit_char_def parse_interval_def add_def isdigit_def
        isdecimal_def superscript_digits_def time_map_def)
  from t s a ab show ?thesis by simp
qed

text \<open>
  The bound is sharp: on every complete term with a longer digit run the parser raises.
\<close>

lemma parse_interval_long_run:
  assumes "complete_term a" and "int_max_str_digits < length (butlast a)"
  shows "parse_interval a = Inl ValueError"
proof -
  from assms(1) have ne: "a \<noteq> []" and u: "unit_char (last a)"
    and ds: "list_all isdecimal (butlast a)"
    by (simp_all add: complete_term_def)
  from ne have a: "a = butlast a @ [last a]" by simp
  have run: "butlast a \<noteq> []"
  proof
    assume "butlast a = []"
    then have "length (butlast a) = 0" by (simp only: list.size)
    with assms(2) show False by simp
  qed
  from assms(2) have long: "int_of_digits (butlast a) = Inl ValueError"
    by (simp add: int_of_digits_def)
  have "interval_loop (a @ '' '') [] 0
        = interval_loop ((butlast a @ [last a]) @ '' '') [] 0"
    using a by simp
  also have "\<dots> = interval_loop (last a # '' '') (butlast a) 0"
    using interval_loop_digits [OF ds, of "last a # '' ''" "[]" 0] by simp
  also have "\<dots> = Inl ValueError"
    using unit_not_digit [OF u] u run long by (simp add: add_def unit_char_time_map)
  finally show ?thesis
    by (simp add: parse_interval_def)
qed

subsection \<open>Sequences of complete terms\<close>

lemma interval_loop_terms:
  "terms_from pending a \<Longrightarrow> list_all isdecimal digit \<Longrightarrow> (pending \<or> digit = []) \<Longrightarrow>
   length digit + length a \<le> int_max_str_digits \<Longrightarrow>
   \<exists>v. \<forall>rest result.
     interval_loop (a @ rest) digit result = interval_loop rest [] (result + v)"
proof (induction a arbitrary: pending digit)
  case Nil
  then have "digit = []" by simp
  then have "\<forall>rest result. interval_loop ([] @ rest) digit result
                = interval_loop rest [] (result + 0)"
    by simp
  then show ?case by (rule exI)
next
  case (Cons c cs)
  show ?case
  proof (cases "unit_char c")
    case True
    then have nd: "\<not> isdigit c" and tm: "time_map c \<noteq> None"
      by (simp_all add: unit_not_digit unit_seconds_time_map)
    from Cons.prems(1) True have "terms_from False cs" by simp
    moreover have "list_all isdecimal []" by simp
    moreover from Cons.prems(4) have "length ([]::string) + length cs \<le> int_max_str_digits"
      by simp
    ultimately obtain v where
      v: "\<And>rest result. interval_loop (cs @ rest) [] result = interval_loop rest [] (result + v)"
      using Cons.IH [of False "[]"] by auto
    let ?n = "(if digit = [] then 1 else decimal digit) * unit_seconds c"
    from Cons.prems(4) have "length digit \<le> int_max_str_digits" by simp
    from add_unit [OF True Cons.prems(2) this]
    have "add digit result (Some c) = Inr (result + ?n, [])" for result .
    then have "\<forall>rest result. interval_loop ((c # cs) @ rest) digit result
                 = interval_loop rest [] (result + (?n + v))"
      using nd tm v by (simp add: add.assoc)
    then show ?thesis by (rule exI)
  next
    case False
    with Cons.prems(1) have dec: "isdecimal c" and rest: "terms_from True cs"
      by (simp_all split: if_splits)
    from Cons.prems(2) dec have d: "list_all isdecimal (digit @ [c])" by simp
    from Cons.prems(4) have "length (digit @ [c]) + length cs \<le> int_max_str_digits" by simp
    from Cons.IH [OF rest d _ this] obtain v where
      v: "\<And>rest result. interval_loop (cs @ rest) (digit @ [c]) result
            = interval_loop rest [] (result + v)"
      by auto
    have "\<forall>rest result. interval_loop ((c # cs) @ rest) digit result
            = interval_loop rest [] (result + v)"
      using dec v by (simp add: isdecimal_isdigit)
    then show ?thesis by (rule exI)
  qed
qed

lemma complete_term_sequence: "complete_term a \<Longrightarrow> term_sequence a"
proof -
  have run: "list_all isdecimal ds \<Longrightarrow> unit_char u \<Longrightarrow> terms_from pending (ds @ [u])"
    for ds u pending
    by (induction ds arbitrary: pending) (auto simp: unit_not_decimal)
  assume "complete_term a"
  then have "a = butlast a @ [last a]" "list_all isdecimal (butlast a)" "unit_char (last a)"
    by (simp_all add: complete_term_def)
  with run [of "butlast a" "last a" False] show ?thesis
    by (simp add: term_sequence_def)
qed

text \<open>
  The same sum for sequences of complete terms, of which one complete term and the
  empty string are instances, when neither sequence is longer than the digits that
  \<^verbatim>\<open>int\<close> converts.
\<close>

lemma parse_interval_additive_sequences:
  assumes "term_sequence a" and "term_sequence b"
    and "length a \<le> int_max_str_digits" and "length b \<le> int_max_str_digits"
  shows "\<exists>x y. parse_interval a = Inr x \<and> parse_interval b = Inr y
           \<and> parse_interval (a @ b) = Inr (x + y)"
proof -
  from interval_loop_terms [of False a "[]"] assms(1) assms(3) obtain x where
    x: "\<And>rest result. interval_loop (a @ rest) [] result = interval_loop rest [] (result + x)"
    by (auto simp: term_sequence_def)
  from interval_loop_terms [of False b "[]"] assms(2) assms(4) obtain y where
    y: "\<And>rest result. interval_loop (b @ rest) [] result = interval_loop rest [] (result + y)"
    by (auto simp: term_sequence_def)
  note blank = blank_skipped
  have "interval_loop (a @ '' '') [] 0 = Inr (x, [])"
    using x [of "'' ''" 0] blank [of x] by (simp only: add_0)
  then have pa: "parse_interval a = Inr x"
    by (simp only: parse_interval_def sum.case prod.case simp_thms if_False)
  have "interval_loop (b @ '' '') [] 0 = Inr (y, [])"
    using y [of "'' ''" 0] blank [of y] by (simp only: add_0)
  then have pb: "parse_interval b = Inr y"
    by (simp only: parse_interval_def sum.case prod.case simp_thms if_False)
  have "interval_loop ((a @ b) @ '' '') [] 0 = interval_loop (b @ '' '') [] (0 + x)"
    using x [of "b @ '' ''" 0] by (simp only: append_assoc)
  also have "\<dots> = interval_loop '' '' [] (x + y)"
    using y [of "'' ''" "0 + x"] by (simp only: add_0)
  also have "\<dots> = Inr (x + y, [])" by (rule blank)
  finally have "parse_interval (a @ b) = Inr (x + y)"
    by (simp only: parse_interval_def sum.case prod.case simp_thms if_False)
  with pa pb show ?thesis by blast
qed

subsection \<open>The parser against the grammar of the specification\<close>

lemma spec_terms_run:
  assumes "list_all isdecimal run"
  shows "spec_terms run = (if run = [] then 0 else decimal run)"
proof -
  have t: "takeWhile isdecimal run = run"
    using assms by (simp add: list_all_iff)
  have d: "dropWhile isdecimal run = []"
    using assms by (simp add: list_all_iff)
  show ?thesis
    by (subst spec_terms.simps) (simp add: t d)
qed

lemma spec_terms_unit:
  assumes "list_all isdecimal run" and "unit_char u"
  shows "spec_terms (run @ u # rest)
         = (if run = [] then 1 else decimal run) * unit_seconds u + spec_terms rest"
proof -
  have nd: "\<not> isdecimal u" using assms(2) by (rule unit_not_decimal)
  have t: "takeWhile isdecimal (run @ u # rest) = run"
    using assms(1) nd by (simp add: list_all_iff)
  have d: "dropWhile isdecimal (run @ u # rest) = u # rest"
    using assms(1) nd by (simp add: list_all_iff)
  show ?thesis
    by (subst spec_terms.simps) (simp add: t d)
qed

text \<open>The end of \<^verbatim>\<open>parse_interval\<close>, after its loop.\<close>

lemma parse_interval_finish:
  "parse_interval s =
     (case interval_loop (s @ '' '') [] 0 of
        Inl e \<Rightarrow> Inl e
      | Inr (result, digit) \<Rightarrow>
          if digit = [] then Inr result
          else (case int_of_digits digit of Inl e \<Rightarrow> Inl e | Inr n \<Rightarrow> Inr (result + n)))"
  by (simp add: parse_interval_def add_def split: sum.splits prod.splits)

lemma interval_loop_spec:
  "list_all isdecimal digit \<Longrightarrow> set s \<inter> set superscript_digits = {} \<Longrightarrow>
   length digit + length (filter isdecimal s) \<le> int_max_str_digits \<Longrightarrow>
   \<exists>result' digit'.
     interval_loop s digit result = Inr (result', digit') \<and> list_all isdecimal digit'
     \<and> length digit' \<le> int_max_str_digits
     \<and> result' + (if digit' = [] then 0 else decimal digit')
         = result + spec_terms (digit @ filter (\<lambda>c. isdecimal c \<or> unit_char c) s)"
proof (induction s arbitrary: digit result)
  case Nil
  then show ?case by (simp add: spec_terms_run)
next
  case (Cons c s)
  from Cons.prems(2) have sup: "c \<notin> set superscript_digits"
    and rest: "set s \<inter> set superscript_digits = {}"
    by auto
  consider (dec) "isdecimal c" | (unit) "unit_char c" | (other) "\<not> isdecimal c" "\<not> unit_char c"
    by blast
  then show ?case
  proof cases
    case dec
    then have d: "list_all isdecimal (digit @ [c])" using Cons.prems(1) by simp
    from dec Cons.prems(3)
    have "length (digit @ [c]) + length (filter isdecimal s) \<le> int_max_str_digits" by simp
    from Cons.IH [OF d rest this, of result] dec show ?thesis
      by (simp add: isdigit_def)
  next
    case unit
    then have nd: "\<not> isdigit c" and ndec: "\<not> isdecimal c"
      by (simp_all add: unit_not_digit unit_not_decimal)
    have tm: "time_map c \<noteq> None" using unit by (simp add: unit_char_time_map)
    from Cons.prems(3) have len: "length digit \<le> int_max_str_digits" by simp
    note a = add_unit [OF unit Cons.prems(1) len, of result]
    have "list_all isdecimal []" by simp
    moreover from Cons.prems(3) ndec
    have "length ([]::string) + length (filter isdecimal s) \<le> int_max_str_digits" by simp
    ultimately show ?thesis
      using Cons.IH [OF _ rest,
          of "[]" "result + (if digit = [] then 1 else decimal digit) * unit_seconds c"]
        nd tm a unit
        spec_terms_unit [OF Cons.prems(1) unit, of "filter (\<lambda>c. isdecimal c \<or> unit_char c) s"]
      by (simp add: algebra_simps)
  next
    case other
    then have nd: "\<not> isdigit c" and nu: "time_map c = None"
      using sup by (simp_all add: isdigit_def unit_char_time_map)
    from other Cons.prems(3)
    have "length digit + length (filter isdecimal s) \<le> int_max_str_digits" by simp
    from Cons.IH [OF Cons.prems(1) rest this, of result] show ?thesis
      using nd nu other by simp
  qed
qed

lemma parse_interval_spec:
  assumes "set s \<inter> set superscript_digits = {}"
    and "length (filter isdecimal s) \<le> int_max_str_digits"
  shows "parse_interval s = Inr (spec_interval s)"
proof -
  have sup: "set (s @ '' '') \<inter> set superscript_digits = {}"
    using assms(1) by (simp add: superscript_digits_def)
  have len: "length ([]::string) + length (filter isdecimal (s @ '' '')) \<le> int_max_str_digits"
    using assms(2) by (simp add: isdecimal_def)
  from interval_loop_spec [OF _ sup len, of 0]
  obtain result' digit' where
    l: "interval_loop (s @ '' '') [] 0 = Inr (result', digit')" and
    d: "list_all isdecimal digit'" and
    n: "length digit' \<le> int_max_str_digits" and
    v: "result' + (if digit' = [] then 0 else decimal digit')
        = spec_terms (filter (\<lambda>c. isdecimal c \<or> unit_char c) (s @ '' ''))"
    by auto
  have f: "filter (\<lambda>c. isdecimal c \<or> unit_char c) (s @ '' '')
           = filter (\<lambda>c. isdecimal c \<or> unit_char c) s"
    by (simp add: isdecimal_def unit_char_def)
  from v f have v': "result' + (if digit' = [] then 0 else decimal digit') = spec_interval s"
    by (simp only: spec_interval_def)
  show ?thesis
  proof (cases "digit' = []")
    case True
    with l v' show ?thesis by (simp add: parse_interval_finish)
  next
    case False
    with d n have "int_of_digits digit' = Inr (decimal digit')"
      by (simp add: int_of_digits_def)
    with l v' False show ?thesis by (simp add: parse_interval_finish)
  qed
qed

subsection \<open>The result is never negative\<close>

lemma decimal_nonneg_aux:
  "list_all isdecimal ds \<Longrightarrow> 0 \<le> n \<Longrightarrow> 0 \<le> foldl (\<lambda>n c. 10 * n + digit_value c) n ds"
proof (induction ds arbitrary: n)
  case Nil
  then show ?case by simp
next
  case (Cons c ds)
  from Cons.prems have "isdecimal c" by simp
  then have "0 \<le> digit_value c" by (auto simp: isdecimal_def digit_value_def)
  with Cons.prems have "0 \<le> 10 * n + digit_value c" by simp
  with Cons.IH [of "10 * n + digit_value c"] Cons.prems show ?case by simp
qed

lemma decimal_takeWhile_nonneg: "0 \<le> decimal (takeWhile isdecimal s)"
proof -
  have "list_all isdecimal (takeWhile isdecimal s)"
    by (auto simp: list_all_iff dest: set_takeWhileD)
  then show ?thesis
    unfolding decimal_def by (rule decimal_nonneg_aux) simp
qed

lemma spec_terms_nonneg: "0 \<le> spec_terms s"
proof (induction s rule: spec_terms.induct)
  case (1 s)
  note run = decimal_takeWhile_nonneg [of s]
  show ?case
  proof (cases "dropWhile isdecimal s")
    case Nil
    then have "spec_terms s
               = (if takeWhile isdecimal s = [] then 0 else decimal (takeWhile isdecimal s))"
      by (subst spec_terms.simps) (simp only: Let_def list.case)
    with run show ?thesis by simp
  next
    case (Cons u rest)
    from "1.IH" [OF refl Cons] have "0 \<le> spec_terms rest" .
    moreover have "0 \<le> unit_seconds u" by (simp add: unit_seconds_def)
    moreover from Cons have "spec_terms s
               = (if takeWhile isdecimal s = [] then 1 else decimal (takeWhile isdecimal s))
                   * unit_seconds u + spec_terms rest"
      by (subst spec_terms.simps) (simp only: Let_def list.case)
    ultimately show ?thesis
      using run by simp
  qed
qed

text \<open>
  What holds of C8 on the code: on the four inputs of the claim the parser returns the
  values the claim gives; on every string without a superscript digit and with no more
  decimal digits than \<^verbatim>\<open>int\<close> converts it returns the value of the specification's
  grammar, which is not negative.
\<close>

lemma parse_interval_examples:
  "parse_interval ''2d'' = Inr 172800 \<and> parse_interval ''1h30m'' = Inr 5400
   \<and> parse_interval ''d'' = Inr 86400 \<and> parse_interval [] = Inr 0"
  by (simp add: parse_interval_def add_def int_of_digits_def int_max_str_digits_def decimal_def
      isdigit_def isdecimal_def superscript_digits_def time_map_def digit_value_def)

lemma parse_interval_decimal_input:
  "set s \<inter> set superscript_digits = {} \<Longrightarrow>
   length (filter isdecimal s) \<le> int_max_str_digits \<Longrightarrow>
   parse_interval s = Inr (spec_interval s) \<and> 0 \<le> spec_interval s"
  by (simp add: parse_interval_spec spec_interval_def spec_terms_nonneg)

text \<open>
  C8. \<^verbatim>\<open>str.isdigit\<close> accepts the superscript two, which \<^verbatim>\<open>int\<close> refuses: on the string
  that holds this one character, and on that character followed by \<^verbatim>\<open>d\<close>, the parser
  raises \<^verbatim>\<open>ValueError\<close> and returns no integer.
\<close>

theorem parse_interval_superscript_raises:
  "isdigit (CHR 0xB2) \<and> int_of_digits [CHR 0xB2] = Inl ValueError
   \<and> parse_interval [CHR 0xB2] = Inl ValueError
   \<and> parse_interval [CHR 0xB2, CHR ''d''] = Inl ValueError"
  by (simp add: parse_interval_def add_def int_of_digits_def isdigit_def isdecimal_def
      superscript_digits_def time_map_def)

section \<open>Properties of \<^verbatim>\<open>parse_paths\<close>\<close>

lemma foldl_visit_include: "foldl (visit False) paths found = paths @ found"
  by (induction found arbitrary: paths) (simp_all add: visit_def)

lemma subseq_remove1: "subseq (remove1 x xs) xs"
  by (induction xs) auto

lemma subseq_visit_exclude: "subseq (visit True paths p) paths"
  by (simp add: visit_def subseq_remove1)

lemma subseq_foldl_visit_exclude: "subseq (foldl (visit True) paths found) paths"
proof (induction found arbitrary: paths)
  case Nil
  show ?case by simp
next
  case (Cons p found)
  have "subseq (foldl (visit True) (visit True paths p) found) (visit True paths p)"
    by (rule Cons.IH)
  then show ?case
    using subseq_visit_exclude [of paths p] by (simp add: subseq_order.trans)
qed

lemma subseq_distinct: "subseq xs ys \<Longrightarrow> distinct ys \<Longrightarrow> distinct xs"
proof (induction rule: list_emb.induct)
  case (list_emb_Nil ys)
  show ?case by simp
next
  case (list_emb_Cons xs ys y)
  then show ?case by simp
next
  case (list_emb_Cons2 x y xs ys)
  from list_emb_Cons2.hyps(2) have "set xs \<subseteq> set ys"
    by (auto dest: list_emb_set)
  with list_emb_Cons2 show ?case by auto
qed

lemma included_Cons:
  "included h b (rule # rules)
   = (if startswith_bang rule then [] else reached h b rule) @ included h b rules"
  by (simp add: included_def)

text \<open>One round of the loop over the rules, by what the rule reaches.\<close>

lemma rules_loop_step:
  assumes "rules_loop h b (rule # rules) paths = Inr ps"
  shows "rules_loop h b rules (foldl (visit (startswith_bang rule)) paths (reached h b rule))
         = Inr ps"
proof (cases "is_file h (Path h (drop 1 rule))")
  case True
  with assms show ?thesis by (simp add: reached_def Let_def)
next
  case False
  with assms show ?thesis
    by (cases "rglob h b (if startswith_bang rule then drop 1 rule else rule)")
       (simp_all add: reached_def Let_def)
qed

lemma rules_loop_subseq:
  "rules_loop h b rules paths = Inr ps \<Longrightarrow> subseq ps (paths @ included h b rules)"
proof (induction rules arbitrary: paths)
  case Nil
  then show ?case by (simp add: included_def)
next
  case (Cons rule rules)
  let ?next = "foldl (visit (startswith_bang rule)) paths (reached h b rule)"
  from rules_loop_step [OF Cons.prems] have "subseq ps (?next @ included h b rules)"
    by (rule Cons.IH)
  moreover have "subseq (?next @ included h b rules) (paths @ included h b (rule # rules))"
  proof (cases "startswith_bang rule")
    case True
    then show ?thesis
      by (simp add: included_Cons subseq_foldl_visit_exclude)
  next
    case False
    then show ?thesis
      by (simp add: included_Cons foldl_visit_include)
  qed
  ultimately show ?case by (rule subseq_order.trans)
qed

text \<open>
  C4, as the code has it. An include rule appends every path it reaches, whether the
  list holds it already or not. What \<^verbatim>\<open>parse_paths\<close> returns is a subsequence of the paths
  its include rules reach, taken in rule order: every path stands in it at most as
  often as the include rules reach it, in the order in which they reach it. So the
  result has no duplicates when the include rules reach no path twice.
\<close>

theorem parse_paths_subseq_included:
  assumes "parse_paths h base_path rules = Inr ps"
  shows "subseq ps (included h (Path h base_path) rules)
         \<and> (distinct (included h (Path h base_path) rules) \<longrightarrow> distinct ps)"
proof -
  from assms have "subseq ps ([] @ included h (Path h base_path) rules)"
    unfolding parse_paths_def by (rule rules_loop_subseq)
  then have s: "subseq ps (included h (Path h base_path) rules)" by simp
  then show ?thesis by (auto dest: subseq_distinct)
qed

theorem parse_paths_subseq_included_witness:
  "parse_paths small_server [] [''server/**/*'', ''!server/world'']
     = Inr [''server/server.jar'', ''server/world/level.dat'']
   \<and> subseq [''server/server.jar'', ''server/world/level.dat'']
        (included small_server (Path small_server []) [''server/**/*'', ''!server/world''])
   \<and> distinct (included small_server (Path small_server []) [''server/**/*'', ''!server/world''])
   \<and> distinct [''server/server.jar'', ''server/world/level.dat'']"
proof -
  have run: "parse_paths small_server [] [''server/**/*'', ''!server/world'']
             = Inr [''server/server.jar'', ''server/world/level.dat'']"
    by (simp add: parse_paths_def small_server_def startswith_bang_def visit_def)
  have inc: "distinct (included small_server (Path small_server [])
                        [''server/**/*'', ''!server/world''])"
    by (simp add: included_def reached_def small_server_def startswith_bang_def)
  from parse_paths_subseq_included [OF run] inc run show ?thesis by simp
qed

text \<open>
  The claim C4 as it is stated fails: two include rules that reach the same file put
  it into the list twice.
\<close>

theorem parse_paths_duplicate:
  "parse_paths small_server [] [''server/**/*'', ''server/world/*'']
     = Inr [''server/server.jar'', ''server/world'', ''server/world/level.dat'',
            ''server/world/level.dat'']
   \<and> \<not> distinct [''server/server.jar'', ''server/world'', ''server/world/level.dat'',
                   ''server/world/level.dat'']"
  by (simp add: parse_paths_def small_server_def startswith_bang_def visit_def)

subsection \<open>Exclusion\<close>

lemma count_foldl_visit_include:
  "count_list (foldl (visit False) paths found) p = count_list paths p + count_list found p"
  by (simp add: foldl_visit_include)

lemma count_visit_exclude:
  "count_list (visit True paths q) p = count_list paths p - (if q = p then 1 else 0)"
  by (simp add: visit_def count_list_remove1 count_notin)

lemma count_foldl_visit_exclude:
  "count_list (foldl (visit True) paths found) p = count_list paths p - count_list found p"
  by (induction found arbitrary: paths) (simp_all add: count_visit_exclude)

lemma rules_loop_tally:
  "rules_loop h b rules paths = Inr ps \<Longrightarrow>
   count_list ps p = tally h b p rules (count_list paths p)"
proof (induction rules arbitrary: paths)
  case Nil
  then show ?case by simp
next
  case (Cons rule rules)
  from rules_loop_step [OF Cons.prems]
  have "count_list ps p
        = tally h b p rules
            (count_list (foldl (visit (startswith_bang rule)) paths (reached h b rule)) p)"
    by (rule Cons.IH)
  then show ?case
    by (simp add: count_foldl_visit_include count_foldl_visit_exclude)
qed

lemma tally_append:
  "tally h b p (pre @ post) n = tally h b p post (tally h b p pre n)"
  by (induction pre arbitrary: n) simp_all

lemma tally_le: "tally h b p rules n \<le> n + count_list (included h b rules) p"
proof (induction rules arbitrary: n)
  case Nil
  show ?case by (simp add: included_def)
next
  case (Cons rule rules)
  show ?case
  proof (cases "startswith_bang rule")
    case True
    with Cons.IH [of "n - count_list (reached h b rule) p"] show ?thesis
      by (simp add: included_Cons)
  next
    case False
    with Cons.IH [of "n + count_list (reached h b rule) p"] show ?thesis
      by (simp add: included_Cons)
  qed
qed

text \<open>
  What holds of C3 on the code: an exclude rule removes a path it reaches when the
  include rules before it have reached the path at most once, and the path stays out
  when no include rule after it reaches the path again.
\<close>

lemma parse_paths_exclusion:
  assumes run: "parse_paths h base_path (pre @ excl # post) = Inr ps"
    and excl: "startswith_bang excl" "p \<in> set (reached h (Path h base_path) excl)"
    and once: "count_list (included h (Path h base_path) pre) p \<le> 1"
    and after: "p \<notin> set (included h (Path h base_path) post)"
  shows "p \<notin> set ps"
proof -
  let ?b = "Path h base_path"
  from run have "count_list ps p = tally h ?b p (pre @ excl # post) (count_list [] p)"
    unfolding parse_paths_def by (rule rules_loop_tally)
  then have c: "count_list ps p
                = tally h ?b p post (tally h ?b p pre 0 - count_list (reached h ?b excl) p)"
    using excl(1) by (simp add: tally_append)
  have "tally h ?b p pre 0 \<le> 1"
    using tally_le [of h ?b p pre 0] once by simp
  moreover have "1 \<le> count_list (reached h ?b excl) p"
    using excl(2) count_list_0_iff [of "reached h ?b excl" p] by simp
  ultimately have "tally h ?b p pre 0 - count_list (reached h ?b excl) p = 0" by simp
  with c have "count_list ps p = tally h ?b p post 0" by simp
  moreover have "tally h ?b p post 0 \<le> 0 + count_list (included h ?b post) p"
    by (rule tally_le)
  moreover have "count_list (included h ?b post) p = 0"
    using after by (simp add: count_notin)
  ultimately have "count_list ps p = 0" by simp
  then show ?thesis by (simp add: count_list_0_iff)
qed

text \<open>
  C3. The rules \<^verbatim>\<open>server/**/*\<close>, \<^verbatim>\<open>server/world/*\<close>, \<^verbatim>\<open>!server/world/level.dat\<close>: the first
  and the second are include rules that reach \<^verbatim>\<open>server/world/level.dat\<close>, the third is
  an exclude rule after them that reaches it, and the file is in the list returned:
  it was appended twice and \<^verbatim>\<open>list.remove\<close> took one occurrence away.
\<close>

theorem parse_paths_exclude_leaves_duplicate:
  "parse_paths small_server []
     [''server/**/*'', ''server/world/*'', ''!server/world/level.dat'']
     = Inr [''server/server.jar'', ''server/world'', ''server/world/level.dat'']
   \<and> \<not> startswith_bang ''server/**/*''
   \<and> ''server/world/level.dat'' \<in> set (reached small_server (Path small_server []) ''server/**/*'')
   \<and> startswith_bang ''!server/world/level.dat''
   \<and> ''server/world/level.dat''
       \<in> set (reached small_server (Path small_server []) ''!server/world/level.dat'')"
  by (simp add: parse_paths_def reached_def small_server_def startswith_bang_def visit_def)

section \<open>Properties of \<^verbatim>\<open>send_now\<close>\<close>

text \<open>
  What holds of C7 on the code: from eight files on the callback raises nothing and
  sends a status exactly when \<open>now\<close> is a multiple of \<open>all div 8\<close> or equals \<open>all\<close>.
\<close>

lemma send_now_from_eight:
  assumes "8 \<le> all"
  shows "send_now all now
         = Inr (if now mod (all div 8) = 0 \<or> all = now then [Broadcast (Progress all now)]
                else [])"
proof -
  from assms have "0 < all div 8"
    by (simp add: pos_imp_zdiv_pos_iff)
  then have d: "int_div8 all = all div 8" and nz: "all div 8 \<noteq> 0"
    using assms by (simp_all add: int_div8_def)
  have "py_mod now (int_div8 all) = Inr (now mod (all div 8))"
    unfolding d py_mod_def using nz by (simp only: if_False)
  then show ?thesis
    unfolding send_now_def by (simp only: sum.case if_distrib [of Inr])
qed

lemma send_now_below_eight:
  assumes "0 \<le> all" and "all < 8"
  shows "send_now all now = Inl ZeroDivisionError"
proof -
  from assms have "all div 8 = 0" by simp
  with assms have "int_div8 all = 0" by (simp add: int_div8_def)
  then show ?thesis by (simp add: send_now_def py_mod_def)
qed

text \<open>
  C7. With one file, or seven, \<^verbatim>\<open>int(all / 8)\<close> is zero and the remainder
  \<^verbatim>\<open>now % int(all / 8)\<close> raises \<^verbatim>\<open>ZeroDivisionError\<close>, also at the last file, where
  \<^verbatim>\<open>all == now\<close> holds but is evaluated second.
\<close>

theorem send_now_few_files_raises:
  "send_now 1 1 = Inl ZeroDivisionError \<and> send_now 7 3 = Inl ZeroDivisionError
   \<and> send_now 7 7 = Inl ZeroDivisionError"
  by (simp add: send_now_def py_mod_def int_div8_def)

section \<open>Properties of \<^verbatim>\<open>Timer.package_zip\<close>\<close>

subsection \<open>The name of the archive\<close>

lemma name_loop_free:
  "\<not> path_exists h path \<Longrightarrow> name_loop h base_filename ext path index = Some (Inr (path, index))"
  by (subst name_loop.simps) simp

lemma name_loop_returns:
  assumes "name_loop h base_filename ext path index = Some r"
  shows "(\<exists>e. r = Inl e) \<or> (\<exists>n. r = Inr (path, n) \<and> \<not> path_exists h path)"
proof (rule name_loop.raw_induct
    [where P = "\<lambda>h base_filename ext path index r.
                  (\<exists>e. r = Inl e) \<or> (\<exists>n. r = Inr (path, n) \<and> \<not> path_exists h path)",
     OF _ assms])
  fix loop :: "host \<Rightarrow> string \<Rightarrow> string \<Rightarrow> path \<Rightarrow> nat \<Rightarrow> (py_error + path \<times> nat) option"
  fix h base_filename ext path index r
  assume IH: "\<And>h base_filename ext path index r.
      loop h base_filename ext path index = Some r \<Longrightarrow>
      (\<exists>e. r = Inl e) \<or> (\<exists>n. r = Inr (path, n) \<and> \<not> path_exists h path)"
  assume body: "(if path_exists h path then
        (case with_name h path (base_filename @ ''.'' @ str_nat (index + 1) @ ''.'' @ ext) of
           Inl e \<Rightarrow> Some (Inl e)
         | Inr renamed \<Rightarrow> loop h base_filename ext path (index + 1))
      else Some (Inr (path, index))) = Some r"
  show "(\<exists>e. r = Inl e) \<or> (\<exists>n. r = Inr (path, n) \<and> \<not> path_exists h path)"
  proof (cases "path_exists h path")
    case False
    with body show ?thesis by auto
  next
    case True
    show ?thesis
    proof (cases "with_name h path (base_filename @ ''.'' @ str_nat (index + 1) @ ''.'' @ ext)")
      case (Inl e)
      with True body show ?thesis by auto
    next
      case (Inr renamed)
      with True body have "loop h base_filename ext path (index + 1) = Some r" by simp
      then show ?thesis by (rule IH)
    qed
  qed
qed

text \<open>
  When the first path exists, the loop returns only by an exception of \<^verbatim>\<open>with_name\<close>;
  when \<^verbatim>\<open>with_name\<close> accepts every name, as it does for the archive types \<^verbatim>\<open>zip\<close>,
  \<^verbatim>\<open>tar\<close> and \<^verbatim>\<open>tar.gz\<close>, it does not return.
\<close>

lemma name_loop_taken:
  assumes "path_exists h path" and "\<And>name. \<exists>renamed. with_name h path name = Inr renamed"
  shows "name_loop h base_filename ext path index = None"
proof (rule ccontr)
  assume "name_loop h base_filename ext path index \<noteq> None"
  then obtain r where r: "name_loop h base_filename ext path index = Some r" by auto
  have "path_exists h path \<longrightarrow> (\<forall>name. \<exists>renamed. with_name h path name = Inr renamed) \<longrightarrow> False"
  proof (rule name_loop.raw_induct
      [where P = "\<lambda>h base_filename ext path index r.
                    path_exists h path \<longrightarrow>
                    (\<forall>name. \<exists>renamed. with_name h path name = Inr renamed) \<longrightarrow> False",
       OF _ r])
    fix loop :: "host \<Rightarrow> string \<Rightarrow> string \<Rightarrow> path \<Rightarrow> nat \<Rightarrow> (py_error + path \<times> nat) option"
    fix h base_filename ext path index r
    assume IH: "\<And>h base_filename ext path index r.
        loop h base_filename ext path index = Some r \<Longrightarrow>
        path_exists h path \<longrightarrow>
        (\<forall>name. \<exists>renamed. with_name h path name = Inr renamed) \<longrightarrow> False"
    assume body: "(if path_exists h path then
          (case with_name h path (base_filename @ ''.'' @ str_nat (index + 1) @ ''.'' @ ext) of
             Inl e \<Rightarrow> Some (Inl e)
           | Inr renamed \<Rightarrow> loop h base_filename ext path (index + 1))
        else Some (Inr (path, index))) = Some r"
    show "path_exists h path \<longrightarrow>
          (\<forall>name. \<exists>renamed. with_name h path name = Inr renamed) \<longrightarrow> False"
    proof (intro impI)
      assume ex: "path_exists h path"
        and ok: "\<forall>name. \<exists>renamed. with_name h path name = Inr renamed"
      from ok obtain renamed where
        "with_name h path (base_filename @ ''.'' @ str_nat (index + 1) @ ''.'' @ ext) = Inr renamed"
        by blast
      with body ex have "loop h base_filename ext path (index + 1) = Some r" by simp
      from IH [OF this] ex ok show False by blast
    qed
  qed
  with assms show False by blast
qed

subsection \<open>The loop over the files\<close>

lemma add_file_fields:
  "attempted (add_file adding file f) = attempted f @ [file]"
  "added (add_file adding file f)
     = added f @ (if adding file = None then [file] else [])"
  "is_closed (add_file adding file f) = is_closed f"
  "calls (add_file adding file f) = calls f"
  "target (add_file adding file f) = target f"
  by (simp_all add: add_file_def Let_def split: option.splits)

lemma files_loop_target:
  "target (snd (files_loop adding callback all_files index files f)) = target f"
proof (induction files arbitrary: index f)
  case Nil
  show ?case by simp
next
  case (Cons x xs)
  show ?case
  proof (cases callback)
    case None
    with Cons.IH [of "index + 1" "add_file adding x f"] show ?thesis
      by (simp add: add_file_fields Let_def)
  next
    case (Some call)
    show ?thesis
    proof (cases "call all_files (index + 1)")
      case (Inl e)
      with Some show ?thesis by (simp add: add_file_fields Let_def)
    next
      case (Inr sent)
      with Some Cons.IH [of "index + 1"] show ?thesis
        by (simp add: add_file_fields Let_def)
    qed
  qed
qed

text \<open>
  With a callback, the loop ends after \<open>k\<close> files: \<^verbatim>\<open>add\<close> or \<^verbatim>\<open>write\<close> has been called for
  each of them and for no other file, in order; the callback has been called once after
  each of them, with the count of the files and 1, 2, ..., \<open>k\<close>. Either every call of the
  callback returned and \<open>k\<close> files are all the files; or the \<open>k\<close>-th call is the first
  that raised, and its exception left the loop.
\<close>

lemma files_loop_progress:
  "\<exists>k r f'. files_loop adding (Some call) all_files index files f = (r, f')
     \<and> k \<le> length files
     \<and> calls f' = calls f @ map (\<lambda>j. (all_files, index + 1 + int j)) [0..<k]
     \<and> attempted f' = attempted f @ take k files
     \<and> added f' = added f @ filter (\<lambda>file. adding file = None) (take k files)
     \<and> is_closed f' = is_closed f
     \<and> (case r of
          None \<Rightarrow>
            k = length files
            \<and> (\<forall>j<k. \<exists>sent. call all_files (index + 1 + int j) = Inr sent)
        | Some e \<Rightarrow>
            0 < k \<and> call all_files (index + int k) = Inl e
            \<and> (\<forall>j. Suc j < k \<longrightarrow> (\<exists>sent. call all_files (index + 1 + int j) = Inr sent)))"
proof (induction files arbitrary: index f)
  case Nil
  show ?case by simp
next
  case (Cons x xs)
  let ?f1 = "add_file adding x f"
  let ?f2 = "?f1\<lparr>calls := calls ?f1 @ [(all_files, index + 1)]\<rparr>"
  show ?case
  proof (cases "call all_files (index + 1)")
    case (Inl e)
    then have "files_loop adding (Some call) all_files index (x # xs) f = (Some e, ?f2)"
      by (simp add: Let_def)
    moreover have "calls ?f2 = calls f @ map (\<lambda>j. (all_files, index + 1 + int j)) [0..<1]"
      by (simp add: add_file_fields)
    moreover have "attempted ?f2 = attempted f @ take 1 (x # xs)"
      by (simp add: add_file_fields)
    moreover have "added ?f2
        = added f @ filter (\<lambda>file. adding file = None) (take 1 (x # xs))"
      by (simp add: add_file_fields)
    moreover have "is_closed ?f2 = is_closed f" by (simp add: add_file_fields)
    moreover have "(1::nat) \<le> length (x # xs)" by simp
    moreover have "(0::nat) < 1 \<and> call all_files (index + int 1) = Inl e
        \<and> (\<forall>j. Suc j < 1 \<longrightarrow> (\<exists>sent. call all_files (index + 1 + int j) = Inr sent))"
      using Inl by simp
    ultimately show ?thesis
      by (intro exI [of _ 1] exI [of _ "Some e"] exI [of _ ?f2]) simp
  next
    case (Inr sent)
    let ?f3 = "?f2\<lparr>events := events ?f2 @ sent\<rparr>"
    from Cons.IH [of "index + 1" ?f3] obtain k r f' where
      run: "files_loop adding (Some call) all_files (index + 1) xs ?f3 = (r, f')" and
      k: "k \<le> length xs" and
      c: "calls f' = calls ?f3 @ map (\<lambda>j. (all_files, index + 1 + 1 + int j)) [0..<k]" and
      t: "attempted f' = attempted ?f3 @ take k xs" and
      m: "added f' = added ?f3 @ filter (\<lambda>file. adding file = None) (take k xs)" and
      cl: "is_closed f' = is_closed ?f3" and
      r: "(case r of
             None \<Rightarrow>
               k = length xs
               \<and> (\<forall>j<k. \<exists>sent. call all_files (index + 1 + 1 + int j) = Inr sent)
           | Some e \<Rightarrow>
               0 < k \<and> call all_files (index + 1 + int k) = Inl e
               \<and> (\<forall>j. Suc j < k \<longrightarrow>
                      (\<exists>sent. call all_files (index + 1 + 1 + int j) = Inr sent)))"
      by blast
    have shift: "index + 1 + int (Suc j) = index + 1 + 1 + int j" for j by simp
    have "files_loop adding (Some call) all_files index (x # xs) f = (r, f')"
      using Inr run by (simp add: Let_def)
    moreover have "Suc k \<le> length (x # xs)" using k by simp
    moreover have "calls f' = calls f @ map (\<lambda>j. (all_files, index + 1 + int j)) [0..<Suc k]"
      using c by (simp add: add_file_fields map_upt_Suc add.assoc del: upt_Suc)
    moreover have "attempted f' = attempted f @ take (Suc k) (x # xs)"
      using t by (simp add: add_file_fields)
    moreover have "added f'
        = added f @ filter (\<lambda>file. adding file = None) (take (Suc k) (x # xs))"
      using m by (simp add: add_file_fields)
    moreover have "is_closed f' = is_closed f" using cl by (simp add: add_file_fields)
    moreover have "(case r of
             None \<Rightarrow>
               Suc k = length (x # xs)
               \<and> (\<forall>j<Suc k. \<exists>sent. call all_files (index + 1 + int j) = Inr sent)
           | Some e \<Rightarrow>
               0 < Suc k \<and> call all_files (index + int (Suc k)) = Inl e
               \<and> (\<forall>j. Suc j < Suc k \<longrightarrow>
                      (\<exists>sent. call all_files (index + 1 + int j) = Inr sent)))"
    proof (cases r)
      case None
      with r have len: "k = length xs"
        and all: "\<And>j. j < k \<Longrightarrow> \<exists>sent. call all_files (index + 1 + 1 + int j) = Inr sent"
        by simp_all
      have "\<exists>sent. call all_files (index + 1 + int j) = Inr sent" if "j < Suc k" for j
      proof (cases j)
        case 0
        with Inr show ?thesis by simp
      next
        case (Suc i)
        with that have "i < k" by simp
        from all [OF this] show ?thesis unfolding Suc shift .
      qed
      with None len show ?thesis by simp
    next
      case (Some e)
      with r have raise: "call all_files (index + 1 + int k) = Inl e"
        and all: "\<And>j. Suc j < k \<Longrightarrow> \<exists>sent. call all_files (index + 1 + 1 + int j) = Inr sent"
        by simp_all
      have "\<exists>sent. call all_files (index + 1 + int j) = Inr sent" if "Suc j < Suc k" for j
      proof (cases j)
        case 0
        with Inr show ?thesis by simp
      next
        case (Suc i)
        with that have "Suc i < k" by simp
        from all [OF this] show ?thesis unfolding Suc shift .
      qed
      moreover have "call all_files (index + int (Suc k)) = Inl e"
        using raise by (simp add: add.commute add.left_commute)
      ultimately show ?thesis using Some by simp
    qed
    ultimately show ?thesis
      by (intro exI [of _ "Suc k"] exI [of _ r] exI [of _ f']) simp
  qed
qed

text \<open>
  C6, as the code has it. Let the backup directory be created, the list \<open>files\<close> be
  computed, the first path of the archive be free, and opening and closing the archive
  succeed. Then \<^verbatim>\<open>package_zip\<close> with a callback ends after \<open>k\<close> of the files: it has
  called \<^verbatim>\<open>add\<close> or \<^verbatim>\<open>write\<close> for the first \<open>k\<close> files in order and for no other file, the
  calls that returned are those of the \<open>k\<close> files whose call does not raise, and it has
  called the callback after each of the \<open>k\<close> files (whether its call returned or raised)
  with the number of files and 1, 2, ..., \<open>k\<close>. Either every call of the callback
  returned: then \<open>k\<close> files are all the files, the archive is closed and its path is
  returned. Or the \<open>k\<close>-th call of the callback is the first that raised: then its
  exception leaves \<^verbatim>\<open>package_zip\<close>, which is not caught there, and no file after the
  \<open>k\<close>-th has been attempted.
\<close>

theorem package_zip_progress:
  assumes mkdir: "mkdir_error h (Path h (backup_path cfg)) = None"
    and files: "selected_files h cfg = Inr files"
    and free: "\<not> path_exists h (archive_path h cfg filename)"
    and opened: "open_error h (archive_path h cfg filename) = None"
    and closing: "close_error h (archive_path h cfg filename) = None"
  shows "\<exists>k result f.
           package_zip h cfg filename (Some call) = Some (result, Some f)
           \<and> k \<le> length files
           \<and> target f = archive_path h cfg filename
           \<and> attempted f = take k files
           \<and> added f = filter (\<lambda>file. add_error h file = None) (take k files)
           \<and> calls f = map (\<lambda>j. (int (length files), 1 + int j)) [0..<k]
           \<and> (case result of
                Inr path \<Rightarrow>
                  path = archive_path h cfg filename \<and> k = length files \<and> is_closed f
                  \<and> (\<forall>j<k. \<exists>sent. call (int (length files)) (1 + int j) = Inr sent)
              | Inl e \<Rightarrow>
                  0 < k \<and> call (int (length files)) (int k) = Inl e
                  \<and> (\<forall>j. Suc j < k \<longrightarrow>
                         (\<exists>sent. call (int (length files)) (1 + int j) = Inr sent)))"
proof -
  let ?first = "archive_path h cfg filename"
  let ?n = "int (length files)"
  let ?f0 = "\<lparr>target = ?first, container = container_of ?first, attempted = [],
              added = [], is_closed = False, calls = [], events = []\<rparr>"
  from files_loop_progress [of "add_error h" call ?n 0 files ?f0]
  obtain k r f' where
    run: "files_loop (add_error h) (Some call) ?n 0 files ?f0 = (r, f')" and
    k: "k \<le> length files" and
    c0: "calls f' = calls ?f0 @ map (\<lambda>j. (?n, 0 + 1 + int j)) [0..<k]" and
    a0: "attempted f' = attempted ?f0 @ take k files" and
    m0: "added f' = added ?f0 @ filter (\<lambda>file. add_error h file = None) (take k files)" and
    r0: "(case r of
            None \<Rightarrow> k = length files \<and> (\<forall>j<k. \<exists>sent. call ?n (0 + 1 + int j) = Inr sent)
          | Some e \<Rightarrow>
              0 < k \<and> call ?n (0 + int k) = Inl e
              \<and> (\<forall>j. Suc j < k \<longrightarrow> (\<exists>sent. call ?n (0 + 1 + int j) = Inr sent)))"
    by blast
  from c0 have c: "calls f' = map (\<lambda>j. (?n, 1 + int j)) [0..<k]" by simp
  from a0 have a: "attempted f' = take k files" by simp
  from m0 have m: "added f' = filter (\<lambda>file. add_error h file = None) (take k files)"
    by simp
  have t: "target f' = ?first"
    using run files_loop_target [of "add_error h" "Some call" ?n 0 files ?f0]
    by simp
  have loop: "name_loop h (format_file_name filename) (zip_type cfg) ?first (Suc 0)
              = Some (Inr (?first, Suc 0))"
    using free by (rule name_loop_free)
  show ?thesis
  proof (cases r)
    case None
    with r0 have len: "k = length files"
      and all: "\<forall>j<k. \<exists>sent. call ?n (1 + int j) = Inr sent"
      by simp_all
    from None have "package_zip h cfg filename (Some call)
        = Some (Inr ?first, Some (f'\<lparr>is_closed := True\<rparr>))"
      by (simp add: package_zip_def mkdir files loop opened run closing)
    with k c a m t len all show ?thesis
      by (intro exI [of _ k] exI [of _ "Inr ?first"] exI [of _ "f'\<lparr>is_closed := True\<rparr>"]) simp
  next
    case (Some e)
    with r0 have pos: "0 < k" and raise: "call ?n (int k) = Inl e"
      and all: "\<forall>j. Suc j < k \<longrightarrow> (\<exists>sent. call ?n (1 + int j) = Inr sent)"
      by simp_all
    from Some have "package_zip h cfg filename (Some call) = Some (Inl e, Some f')"
      by (simp add: package_zip_def mkdir files loop opened run)
    with k c a m t pos raise all show ?thesis
      by (intro exI [of _ k] exI [of _ "Inl e"] exI [of _ f']) simp
  qed
qed

lemma example_server_files:
  "selected_files example_server default_config
   = Inr [''server/server.jar'', ''server/world'', ''server/world/level.dat'']"
  by (simp add: selected_files_def parse_paths_def example_server_def small_server_def
      default_config_def startswith_bang_def visit_def suffix_to_prefix)

lemma example_server_archive_path:
  "archive_path example_server default_config ''2024-01-01_00-00-00''
   = ''permanent_backup/2024-01-01_00-00-00.zip''"
  by (simp add: archive_path_def example_server_def small_server_def default_config_def
      format_file_name_map hostile_chars_def)

lemma example_server_free:
  "\<not> path_exists example_server ''permanent_backup/2024-01-01_00-00-00.zip''"
  by (simp add: example_server_def small_server_def)

lemma example_server_succeeds:
  "mkdir_error example_server p = None" "open_error example_server p = None"
  "close_error example_server p = None" "add_error example_server p = None"
  by (simp_all add: example_server_def small_server_def)

text \<open>
  The claim C6 as it is stated fails. The example server with the default configuration
  has three paths to archive, and every \<^verbatim>\<open>write\<close> succeeds; the callback of the
  coordinator raises at its first call; the exception leaves the builder, which has
  called \<^verbatim>\<open>write\<close> for one file of the three and has not closed the archive. Without a
  callback the same build calls \<^verbatim>\<open>write\<close> for all three files and closes the archive.
\<close>

theorem package_zip_callback_aborts:
  "package_zip example_server default_config ''2024-01-01_00-00-00'' (Some send_now)
   = Some (Inl ZeroDivisionError,
           Some \<lparr>target = ''permanent_backup/2024-01-01_00-00-00.zip'', container = Zip,
                 attempted = [''server/server.jar''], added = [''server/server.jar''],
                 is_closed = False, calls = [(3, 1)], events = []\<rparr>)
   \<and> package_zip example_server default_config ''2024-01-01_00-00-00'' None
     = Some (Inr ''permanent_backup/2024-01-01_00-00-00.zip'',
             Some \<lparr>target = ''permanent_backup/2024-01-01_00-00-00.zip'', container = Zip,
                   attempted = [''server/server.jar'', ''server/world'',
                                ''server/world/level.dat''],
                   added = [''server/server.jar'', ''server/world'', ''server/world/level.dat''],
                   is_closed = True, calls = [], events = []\<rparr>)"
proof -
  have loop: "\<And>base ext. name_loop example_server base ext
                ''permanent_backup/2024-01-01_00-00-00.zip'' (Suc 0)
              = Some (Inr (''permanent_backup/2024-01-01_00-00-00.zip'', Suc 0))"
    using example_server_free by (rule name_loop_free)
  have zip: "container_of ''permanent_backup/2024-01-01_00-00-00.zip'' = Zip"
    by (simp add: container_of_def suffix_to_prefix)
  show ?thesis
    by (simp add: package_zip_def example_server_files example_server_archive_path loop zip
        example_server_succeeds add_file_def send_now_def py_mod_def int_div8_def Let_def)
qed

text \<open>
  The theorem on the example server, once with the callback of the coordinator, whose
  first call raises, and once with a callback that returns at every call.
\<close>

theorem package_zip_progress_witness:
  "mkdir_error example_server (Path example_server (backup_path default_config)) = None
   \<and> selected_files example_server default_config
     = Inr [''server/server.jar'', ''server/world'', ''server/world/level.dat'']
   \<and> \<not> path_exists example_server
         (archive_path example_server default_config ''2024-01-01_00-00-00'')
   \<and> open_error example_server
       (archive_path example_server default_config ''2024-01-01_00-00-00'') = None
   \<and> close_error example_server
       (archive_path example_server default_config ''2024-01-01_00-00-00'') = None
   \<and> (\<exists>f. package_zip example_server default_config ''2024-01-01_00-00-00'' (Some send_now)
            = Some (Inl ZeroDivisionError, Some f)
          \<and> attempted f = [''server/server.jar'']
          \<and> added f = [''server/server.jar'']
          \<and> calls f = [(3, 1)])
   \<and> (\<exists>f. package_zip example_server default_config ''2024-01-01_00-00-00''
              (Some (\<lambda>all now. Inr []))
            = Some (Inr ''permanent_backup/2024-01-01_00-00-00.zip'', Some f)
          \<and> attempted f = [''server/server.jar'', ''server/world'', ''server/world/level.dat'']
          \<and> added f = [''server/server.jar'', ''server/world'', ''server/world/level.dat'']
          \<and> calls f = [(3, 1), (3, 2), (3, 3)]
          \<and> is_closed f)"
proof -
  let ?files = "[''server/server.jar'', ''server/world'', ''server/world/level.dat'']"
  let ?first = "archive_path example_server default_config ''2024-01-01_00-00-00''"
  let ?quiet = "\<lambda>all now. Inr [] :: py_error + event list"
  have mkdir: "mkdir_error example_server (Path example_server (backup_path default_config))
               = None"
    by (rule example_server_succeeds)
  have free: "\<not> path_exists example_server ?first"
    by (simp add: example_server_archive_path example_server_free)
  have opened: "open_error example_server ?first = None"
    by (rule example_server_succeeds)
  have closing: "close_error example_server ?first = None"
    by (rule example_server_succeeds)
  have first_call: "send_now 3 1 = Inl ZeroDivisionError"
    by (simp add: send_now_def py_mod_def int_div8_def)
  have upt: "[0..<3] = [0, Suc 0, Suc (Suc 0)]"
    by (simp add: upt_rec)
  from package_zip_progress [OF mkdir example_server_files free opened closing, of send_now]
  obtain k result f where
    pz: "package_zip example_server default_config ''2024-01-01_00-00-00'' (Some send_now)
         = Some (result, Some f)" and
    a: "attempted f = take k ?files" and
    m: "added f = filter (\<lambda>file. add_error example_server file = None) (take k ?files)" and
    c: "calls f = map (\<lambda>j. (int (length ?files), 1 + int j)) [0..<k]" and
    r: "(case result of
           Inr path \<Rightarrow>
             path = ?first \<and> k = length ?files \<and> is_closed f
             \<and> (\<forall>j<k. \<exists>sent. send_now (int (length ?files)) (1 + int j) = Inr sent)
         | Inl e \<Rightarrow>
             0 < k \<and> send_now (int (length ?files)) (int k) = Inl e
             \<and> (\<forall>j. Suc j < k \<longrightarrow>
                    (\<exists>sent. send_now (int (length ?files)) (1 + int j) = Inr sent)))"
    by blast
  have aborted: "result = Inl ZeroDivisionError \<and> k = 1"
  proof (cases result)
    case (Inr path)
    with r have k3: "k = 3"
      and all: "\<forall>j<k. \<exists>sent. send_now 3 (1 + int j) = Inr sent"
      by simp_all
    from k3 have "0 < k" by simp
    with all have "\<exists>sent. send_now 3 (1 + int 0) = Inr sent" by blast
    with first_call show ?thesis by simp
  next
    case (Inl e)
    with r have pos: "0 < k" and raise: "send_now 3 (int k) = Inl e"
      and all: "\<forall>j. Suc j < k \<longrightarrow> (\<exists>sent. send_now 3 (1 + int j) = Inr sent)"
      by simp_all
    have "k = 1"
    proof (rule ccontr)
      assume "k \<noteq> 1"
      with pos have "Suc 0 < k" by simp
      with all have "\<exists>sent. send_now 3 (1 + int 0) = Inr sent" by blast
      with first_call show False by simp
    qed
    with raise first_call Inl show ?thesis by simp
  qed
  have abort: "\<exists>f. package_zip example_server default_config ''2024-01-01_00-00-00''
                    (Some send_now) = Some (Inl ZeroDivisionError, Some f)
                \<and> attempted f = [''server/server.jar'']
                \<and> added f = [''server/server.jar'']
                \<and> calls f = [(3, 1)]"
    using pz a m c aborted by (intro exI [of _ f]) (simp add: example_server_succeeds)
  from package_zip_progress [OF mkdir example_server_files free opened closing, of ?quiet]
  obtain k' result' f' where
    pz': "package_zip example_server default_config ''2024-01-01_00-00-00'' (Some ?quiet)
          = Some (result', Some f')" and
    a': "attempted f' = take k' ?files" and
    m': "added f' = filter (\<lambda>file. add_error example_server file = None) (take k' ?files)" and
    c': "calls f' = map (\<lambda>j. (int (length ?files), 1 + int j)) [0..<k']" and
    r': "(case result' of
            Inr path \<Rightarrow>
              path = ?first \<and> k' = length ?files \<and> is_closed f'
              \<and> (\<forall>j<k'. \<exists>sent. ?quiet (int (length ?files)) (1 + int j) = Inr sent)
          | Inl e \<Rightarrow>
              0 < k' \<and> ?quiet (int (length ?files)) (int k') = Inl e
              \<and> (\<forall>j. Suc j < k' \<longrightarrow>
                     (\<exists>sent. ?quiet (int (length ?files)) (1 + int j) = Inr sent)))"
    by blast
  have ended: "result' = Inr ''permanent_backup/2024-01-01_00-00-00.zip'' \<and> k' = 3
              \<and> is_closed f'"
    using r' by (cases result') (simp_all add: example_server_archive_path)
  have finish: "\<exists>f. package_zip example_server default_config ''2024-01-01_00-00-00''
                     (Some ?quiet)
                   = Some (Inr ''permanent_backup/2024-01-01_00-00-00.zip'', Some f)
                 \<and> attempted f
                   = [''server/server.jar'', ''server/world'', ''server/world/level.dat'']
                 \<and> added f = [''server/server.jar'', ''server/world'', ''server/world/level.dat'']
                 \<and> calls f = [(3, 1), (3, 2), (3, 3)]
                 \<and> is_closed f"
    using pz' a' m' c' ended by (intro exI [of _ f']) (simp add: example_server_succeeds upt)
  from mkdir example_server_files free opened closing abort finish show ?thesis
    by (intro conjI)
qed

subsection \<open>An archive of the same name\<close>

text \<open>
  C5. The archive of the same name is already in the backup directory: the naming loop
  tests the same path in every round, since the value of \<^verbatim>\<open>with_name\<close> is dropped, and
  \<^verbatim>\<open>package_zip\<close> does not return; neither does the run that called it.
\<close>

theorem package_zip_existing_archive_hangs:
  "path_exists taken_server (archive_path taken_server default_config ''2024-01-01_00-00-00'')
   \<and> package_zip taken_server default_config ''2024-01-01_00-00-00'' (Some send_now) = None
   \<and> create_backup taken_server default_config idle None None None = None"
proof -
  have p: "archive_path taken_server default_config ''2024-01-01_00-00-00''
           = ''permanent_backup/2024-01-01_00-00-00.zip''"
    by (simp add: archive_path_def taken_server_def example_server_def small_server_def
        default_config_def format_file_name_map hostile_chars_def)
  have ex: "path_exists taken_server ''permanent_backup/2024-01-01_00-00-00.zip''"
    by (simp add: taken_server_def)
  have ok: "\<And>name. \<exists>renamed.
      with_name taken_server ''permanent_backup/2024-01-01_00-00-00.zip'' name = Inr renamed"
    by (simp add: taken_server_def example_server_def small_server_def)
  have loop: "\<And>base ext. name_loop taken_server base ext
      (archive_path taken_server default_config ''2024-01-01_00-00-00'') (Suc 0) = None"
    unfolding p using ex ok by (rule name_loop_taken)
  have mkdir: "\<And>dir. mkdir_error taken_server dir = None"
    by (simp add: taken_server_def example_server_def small_server_def)
  have files: "\<exists>files. selected_files taken_server default_config = Inr files"
    by (simp add: selected_files_def parse_paths_def taken_server_def example_server_def
        small_server_def default_config_def startswith_bang_def visit_def)
  then obtain files where f: "selected_files taken_server default_config = Inr files" ..
  have pz: "package_zip taken_server default_config ''2024-01-01_00-00-00'' (Some send_now) = None"
    by (simp add: package_zip_def mkdir f loop)
  have a: "ack taken_server" "strftime taken_server = ''2024-01-01_00-00-00''"
    by (simp_all add: taken_server_def example_server_def small_server_def)
  have b: "begin_backup default_config idle None
           = (Admitted, \<lparr>backup_ing = True, saved_game_event = False, creating_backup = True\<rparr>,
              [Broadcast BackingUp, Execute ''save-off'', Execute ''save-all flush''])"
    by (simp add: begin_backup_def idle_def default_config_def)
  have "create_backup taken_server default_config idle None None None = None"
    by (simp add: create_backup_def b a pz)
  with p ex pz show ?thesis by simp
qed

text \<open>
  What holds of C5 on the code: when the first path is free it is the path written and
  returned; and whenever the naming loop returns a path, it is the first path.
\<close>

lemma package_zip_target:
  assumes "package_zip h cfg filename callback = Some (Inr path, archive)"
  shows "path = archive_path h cfg filename \<and> \<not> path_exists h path
         \<and> (\<exists>f. archive = Some f \<and> target f = path \<and> is_closed f)"
proof -
  from assms have mkdir: "mkdir_error h (Path h (backup_path cfg)) = None"
    by (cases "mkdir_error h (Path h (backup_path cfg))") (simp_all add: package_zip_def)
  from assms mkdir obtain files where files: "selected_files h cfg = Inr files"
    by (cases "selected_files h cfg") (simp_all add: package_zip_def)
  let ?first = "archive_path h cfg filename"
  from assms mkdir files obtain r where
    r: "name_loop h (format_file_name filename) (zip_type cfg) ?first (Suc 0) = Some r"
    by (cases "name_loop h (format_file_name filename) (zip_type cfg) ?first (Suc 0)")
       (simp_all add: package_zip_def)
  from assms mkdir files r obtain n where n: "r = Inr (?first, n)"
    and free: "\<not> path_exists h ?first"
    using name_loop_returns [OF r] by (auto simp: package_zip_def)
  from assms mkdir files r n have opened: "open_error h ?first = None"
    by (cases "open_error h ?first") (simp_all add: package_zip_def)
  let ?f0 = "\<lparr>target = ?first, container = container_of ?first, attempted = [],
              added = [], is_closed = False, calls = [], events = []\<rparr>"
  obtain e f where
    l: "files_loop (add_error h) callback (int (length files)) 0 files ?f0 = (e, f)"
    by (cases "files_loop (add_error h) callback (int (length files)) 0 files ?f0")
  have t: "target f = ?first"
    using l files_loop_target [of "add_error h" callback "int (length files)" 0 files ?f0]
    by simp
  from assms mkdir files r n opened l t free show ?thesis
    by (cases e; cases "close_error h ?first") (auto simp: package_zip_def)
qed

section \<open>Properties of \<^verbatim>\<open>Timer.create_backup\<close>\<close>

lemma begin_backup_admitted:
  assumes "begin_backup cfg t source = (Admitted, t0, out0)"
  shows "t0 = t\<lparr>creating_backup := True, backup_ing := True, saved_game_event := False\<rparr>
         \<and> out0 = [Broadcast BackingUp, Execute ''save-off'', Execute ''save-all flush'']
         \<and> enabled cfg \<and> (backup_ing t \<longrightarrow> source = None)"
proof (cases "if backup_ing t then source else None")
  case None
  with assms show ?thesis
    by (cases "enabled cfg") (auto simp: begin_backup_def split: if_splits)
next
  case (Some src)
  with assms show ?thesis by (simp add: begin_backup_def)
qed

lemma begin_backup_cases:
  obtains (rejected) src where "backup_ing t" "source = Some src"
      "begin_backup cfg t source = (Rejected, t, [Reply src AlreadyRunning])"
  | (disabled) "\<not> enabled cfg" "begin_backup cfg t source = (Disabled, t, [])"
  | (admitted) "enabled cfg"
      "begin_backup cfg t source
       = (Admitted, t\<lparr>creating_backup := True, backup_ing := True, saved_game_event := False\<rparr>,
          [Broadcast BackingUp, Execute ''save-off'', Execute ''save-all flush''])"
proof (cases "if backup_ing t then source else None")
  case (Some src)
  then have "backup_ing t" "source = Some src"
    by (simp_all split: if_splits)
  moreover from Some have "begin_backup cfg t source = (Rejected, t, [Reply src AlreadyRunning])"
    by (simp add: begin_backup_def)
  ultimately show ?thesis by (rule rejected)
next
  case None
  show ?thesis
  proof (cases "enabled cfg")
    case True
    with None show ?thesis by (intro admitted) (simp_all add: begin_backup_def)
  next
    case False
    with None show ?thesis by (intro disabled) (simp_all add: begin_backup_def)
  qed
qed

text \<open>What the callback and the loop over the files send holds no server command.\<close>

lemma send_now_no_command: "send_now all now = Inr sent \<Longrightarrow> Execute c \<notin> set sent"
  by (auto simp: send_now_def split: sum.splits if_splits)

lemma add_file_no_command:
  "Execute c \<notin> set (events f) \<Longrightarrow> Execute c \<notin> set (events (add_file adding x f))"
  by (simp add: add_file_def Let_def split: option.splits)

lemma files_loop_no_command:
  "Execute c \<notin> set (events f) \<Longrightarrow>
   Execute c \<notin> set (events (snd (files_loop adding (Some send_now) all_files index files f)))"
proof (induction files arbitrary: index f)
  case Nil
  then show ?case by simp
next
  case (Cons x xs)
  note clean = add_file_no_command [OF Cons.prems, of adding x]
  show ?case
  proof (cases "send_now all_files (index + 1)")
    case (Inl e)
    with clean show ?thesis by (simp add: Let_def)
  next
    case (Inr sent)
    let ?f3 = "(add_file adding x f)\<lparr>calls := calls (add_file adding x f) @ [(all_files, index + 1)],
                 events := events (add_file adding x f) @ sent\<rparr>"
    have "Execute c \<notin> set (events ?f3)"
      using clean send_now_no_command [OF Inr, of c] by simp
    from Cons.IH [OF this, of "index + 1"] Inr show ?thesis
      by (simp add: Let_def)
  qed
qed

lemma package_zip_no_command:
  assumes "package_zip h cfg filename (Some send_now) = Some (packed, Some f)"
  shows "Execute c \<notin> set (events f)"
proof -
  from assms have mkdir: "mkdir_error h (Path h (backup_path cfg)) = None"
    by (cases "mkdir_error h (Path h (backup_path cfg))") (simp_all add: package_zip_def)
  from assms mkdir obtain files where files: "selected_files h cfg = Inr files"
    by (cases "selected_files h cfg") (simp_all add: package_zip_def)
  let ?first = "archive_path h cfg filename"
  let ?f0 = "\<lparr>target = ?first, container = container_of ?first, attempted = [],
              added = [], is_closed = False, calls = [], events = []\<rparr>"
  from assms mkdir files obtain r where
    r: "name_loop h (format_file_name filename) (zip_type cfg) ?first (Suc 0) = Some r"
    by (cases "name_loop h (format_file_name filename) (zip_type cfg) ?first (Suc 0)")
       (simp_all add: package_zip_def)
  from assms mkdir files r obtain n where n: "r = Inr (?first, n)"
    using name_loop_returns [OF r] by (auto simp: package_zip_def)
  from assms mkdir files r n have opened: "open_error h ?first = None"
    by (cases "open_error h ?first") (simp_all add: package_zip_def)
  obtain e f' where
    l: "files_loop (add_error h) (Some send_now) (int (length files)) 0 files ?f0 = (e, f')"
    by (cases "files_loop (add_error h) (Some send_now) (int (length files)) 0 files ?f0")
  have "Execute c \<notin> set (events ?f0)" by simp
  from files_loop_no_command [OF this, of "add_error h" "int (length files)" 0 files] l
  have clean: "Execute c \<notin> set (events f')" by simp
  from assms mkdir files r n opened l have "f = f' \<or> f = f'\<lparr>is_closed := True\<rparr>"
    by (cases e; cases "close_error h ?first") (auto simp: package_zip_def)
  with clean show ?thesis by auto
qed

text \<open>
  A run that is admitted and acknowledged, when \<^verbatim>\<open>package_zip\<close> returns or raises: the
  \<^verbatim>\<open>finally\<close> block finds the lock held, releases it and executes \<^verbatim>\<open>save-on\<close>.
\<close>

lemma create_backup_acknowledged:
  assumes b: "begin_backup cfg t source = (Admitted, t0, out0)"
    and a: "ack h"
    and p: "package_zip h cfg
              (strftime h @ (case cmt of None \<Rightarrow> []
                             | Some comment \<Rightarrow> if comment = [] then [] else ''_'' @ comment))
              (Some send_now) = Some (packed, f)"
  shows "create_backup h cfg t source cmt done_callback
         = Some (case packed of Inr path \<Rightarrow> Completed path | Inl e \<Rightarrow> Failed e,
                 t0\<lparr>saved_game_event := True, backup_ing := False, creating_backup := False\<rparr>,
                 out0 @ (case f of None \<Rightarrow> [] | Some b \<Rightarrow> events b)
                   @ (case packed of
                        Inr path \<Rightarrow> [Broadcast BackupDone, Broadcast BackupSize]
                      | Inl e \<Rightarrow> [LogException e, Broadcast BackupFailed])
                   @ Execute ''save-on'' # (case done_callback of None \<Rightarrow> [] | Some sent \<Rightarrow> sent))"
proof -
  from begin_backup_admitted [OF b] have held: "creating_backup t0" by simp
  show ?thesis
  proof (cases packed)
    case (Inl e)
    with b a p held show ?thesis
      by (simp add: create_backup_def finally_block_def Let_def)
  next
    case (Inr path)
    with b a p held show ?thesis
      by (simp add: create_backup_def finally_block_def Let_def)
  qed
qed

text \<open>
  What holds of C1 on the code: a run that has entered the wait and is acknowledged,
  and that ends, ends by completion or by an exception of the packaging; on both paths
  it executes \<^verbatim>\<open>save-on\<close> once, after everything else it sends, and leaves the lock
  released and the flag cleared.
\<close>

lemma create_backup_resumes:
  assumes run: "create_backup h cfg t source cmt done_callback = Some (how, t', sent)"
    and entered: "how \<noteq> Refused" "how \<noteq> Skipped"
    and a: "ack h"
  shows "\<exists>before. sent = before @ Execute ''save-on''
                          # (case done_callback of None \<Rightarrow> [] | Some d \<Rightarrow> d)
           \<and> Execute ''save-on'' \<notin> set before
           \<and> \<not> creating_backup t' \<and> \<not> backup_ing t'
           \<and> ((\<exists>path. how = Completed path) \<or> (\<exists>e. how = Failed e))"
proof (cases rule: begin_backup_cases [of t source cfg])
  case (rejected src)
  with run entered show ?thesis by (simp add: create_backup_def)
next
  case disabled
  with run entered show ?thesis by (simp add: create_backup_def)
next
  case admitted
  let ?t0 = "t\<lparr>creating_backup := True, backup_ing := True, saved_game_event := False\<rparr>"
  let ?out0 = "[Broadcast BackingUp, Execute ''save-off'', Execute ''save-all flush'']"
  let ?name = "strftime h @ (case cmt of None \<Rightarrow> []
                             | Some comment \<Rightarrow> if comment = [] then [] else ''_'' @ comment)"
  show ?thesis
  proof (cases "package_zip h cfg ?name (Some send_now)")
    case None
    with run admitted(2) a show ?thesis by (simp add: create_backup_def Let_def)
  next
    case (Some r)
    obtain packed f where r: "r = (packed, f)" by (cases r)
    let ?built = "case f of None \<Rightarrow> [] | Some b \<Rightarrow> events b"
    let ?report = "case packed of
                     Inr path \<Rightarrow> [Broadcast BackupDone, Broadcast BackupSize]
                   | Inl e \<Rightarrow> [LogException e, Broadcast BackupFailed]"
    from create_backup_acknowledged [OF admitted(2) a, of cmt packed f done_callback] Some r run
    have how: "how = (case packed of Inr path \<Rightarrow> Completed path | Inl e \<Rightarrow> Failed e)"
      and t': "t' = ?t0\<lparr>saved_game_event := True, backup_ing := False, creating_backup := False\<rparr>"
      and sent: "sent = ?out0 @ ?built @ ?report
                   @ Execute ''save-on'' # (case done_callback of None \<Rightarrow> [] | Some d \<Rightarrow> d)"
      by simp_all
    have "Execute ''save-on'' \<notin> set ?built"
    proof (cases f)
      case None
      then show ?thesis by simp
    next
      case (Some b)
      with \<open>package_zip h cfg ?name (Some send_now) = Some r\<close> r
      have "Execute ''save-on'' \<notin> set (events b)"
        by (intro package_zip_no_command [of h cfg ?name packed b]) simp
      with Some show ?thesis by simp
    qed
    moreover have "Execute ''save-on'' \<notin> set ?report" by (cases packed) simp_all
    ultimately have "Execute ''save-on'' \<notin> set (?out0 @ ?built @ ?report)" by simp
    moreover from sent have "sent = (?out0 @ ?built @ ?report)
                   @ Execute ''save-on'' # (case done_callback of None \<Rightarrow> [] | Some d \<Rightarrow> d)"
      by simp
    moreover from t' have "\<not> creating_backup t' \<and> \<not> backup_ing t'" by simp
    moreover from how have "(\<exists>path. how = Completed path) \<or> (\<exists>e. how = Failed e)"
      by (cases packed) simp_all
    ultimately show ?thesis by blast
  qed
qed

text \<open>
  C1. No acknowledgement arrives and the timeout is 5 seconds: the run has executed
  \<^verbatim>\<open>save-off\<close>, reports the timeout, clears the flag and returns. It executes no
  \<^verbatim>\<open>save-on\<close>, and the lock it took stays held.
\<close>

theorem create_backup_timeout_leaves_saving_off:
  "create_backup (example_server\<lparr>ack := False\<rparr>) (default_config\<lparr>save_game_timeout := 5\<rparr>)
     idle None None None
   = Some (TimedOut,
           \<lparr>backup_ing = False, saved_game_event = False, creating_backup = True\<rparr>,
           [Broadcast BackingUp, Execute ''save-off'', Execute ''save-all flush'',
            Broadcast SaveTimeout])"
  by (simp add: create_backup_def begin_backup_def idle_def default_config_def)

text \<open>
  What holds of C2 on the code: while the flag is set, an invocation that comes with a
  command source is refused with one reply to that source, and changes nothing.
\<close>

lemma create_backup_manual_refused:
  "backup_ing t \<Longrightarrow>
   create_backup h cfg t (Some src) cmt done_callback
   = Some (Refused, t, [Reply src AlreadyRunning])"
  by (simp add: create_backup_def begin_backup_def)

text \<open>
  Two runs that overlap share the flag and the lock. A manual run starts, a scheduled
  run starts while it is in progress, the first of them to end releases the lock in
  its \<^verbatim>\<open>finally\<close> block, and the second finds the lock free: its \<^verbatim>\<open>release\<close> raises
  \<^verbatim>\<open>RuntimeError\<close> and its \<^verbatim>\<open>save-on\<close> is not executed.
\<close>

lemma overlapping_runs_release_twice:
  "begin_backup default_config idle (Some src)
   = (Admitted, busy, [Broadcast BackingUp, Execute ''save-off'', Execute ''save-all flush''])
   \<and> begin_backup default_config busy None
     = (Admitted, busy, [Broadcast BackingUp, Execute ''save-off'', Execute ''save-all flush''])
   \<and> finally_block busy None = (None, idle, [Execute ''save-on''])
   \<and> finally_block idle None = (Some RuntimeError, idle, [])"
  by (simp add: begin_backup_def finally_block_def idle_def busy_def default_config_def)

text \<open>
  C2. A run is in progress (flag set, lock held) and the scheduler invokes
  \<^verbatim>\<open>create_backup\<close>, which it does without a command source: the invocation is not
  refused. It executes \<^verbatim>\<open>save-off\<close> and \<^verbatim>\<open>save-all flush\<close> again, and here, with no rule
  to select a file, it writes an archive, executes \<^verbatim>\<open>save-on\<close>, clears the flag and
  releases the lock of the run that is still in progress.
\<close>

theorem create_backup_scheduled_not_refused:
  "begin_backup default_config busy None
   = (Admitted, busy, [Broadcast BackingUp, Execute ''save-off'', Execute ''save-all flush''])
   \<and> create_backup example_server (default_config\<lparr>files_rules := []\<rparr>) busy None None
       (Some [Broadcast NextBackup])
     = Some (Completed ''permanent_backup/2024-01-01_00-00-00.zip'',
             \<lparr>backup_ing = False, saved_game_event = True, creating_backup = False\<rparr>,
             [Broadcast BackingUp, Execute ''save-off'', Execute ''save-all flush'',
              Broadcast BackupDone, Broadcast BackupSize, Execute ''save-on'',
              Broadcast NextBackup])"
proof -
  have b: "\<And>cfg. enabled cfg \<Longrightarrow> begin_backup cfg busy None
           = (Admitted, busy, [Broadcast BackingUp, Execute ''save-off'', Execute ''save-all flush''])"
    by (simp add: begin_backup_def busy_def)
  have e: "enabled default_config" "enabled (default_config\<lparr>files_rules := []\<rparr>)"
    by (simp_all add: default_config_def)
  have path: "archive_path example_server (default_config\<lparr>files_rules := []\<rparr>)
                ''2024-01-01_00-00-00'' = ''permanent_backup/2024-01-01_00-00-00.zip''"
    by (simp add: archive_path_def example_server_def small_server_def default_config_def
        format_file_name_map hostile_chars_def)
  have loop: "\<And>base ext. name_loop example_server base ext
                ''permanent_backup/2024-01-01_00-00-00.zip'' (Suc 0)
              = Some (Inr (''permanent_backup/2024-01-01_00-00-00.zip'', Suc 0))"
    using example_server_free by (rule name_loop_free)
  have files: "selected_files example_server (default_config\<lparr>files_rules := []\<rparr>) = Inr []"
    by (simp add: selected_files_def parse_paths_def)
  have pz: "package_zip example_server (default_config\<lparr>files_rules := []\<rparr>)
              ''2024-01-01_00-00-00'' (Some send_now)
            = Some (Inr ''permanent_backup/2024-01-01_00-00-00.zip'',
                    Some \<lparr>target = ''permanent_backup/2024-01-01_00-00-00.zip'',
                          container = container_of ''permanent_backup/2024-01-01_00-00-00.zip'',
                          attempted = [], added = [], is_closed = True, calls = [],
                          events = []\<rparr>)"
    by (simp add: package_zip_def files path loop example_server_succeeds)
  have h: "ack example_server" "strftime example_server = ''2024-01-01_00-00-00''"
    by (simp_all add: example_server_def small_server_def)
  have "create_backup example_server (default_config\<lparr>files_rules := []\<rparr>) busy None None
          (Some [Broadcast NextBackup])
        = Some (Completed ''permanent_backup/2024-01-01_00-00-00.zip'',
             \<lparr>backup_ing = False, saved_game_event = True, creating_backup = False\<rparr>,
             [Broadcast BackingUp, Execute ''save-off'', Execute ''save-all flush'',
              Broadcast BackupDone, Broadcast BackupSize, Execute ''save-on'',
              Broadcast NextBackup])"
    using create_backup_acknowledged [OF b [OF e(2)] h(1), of None _ _ "Some [Broadcast NextBackup]"] pz
    by (simp add: h(2) busy_def)
  with b [OF e(1)] show ?thesis by simp
qed

end
